theory Spec2Isabelle
  imports Complex_Main "HOL-Library.Word" "HOL-Library.Monad_Syntax"
begin

unbundle bit_operations_syntax

section \<open>emulated128.hpp: the 128-bit unsigned integer and the wide multiplications\<close>

type_synonym u64 = "64 word"
type_synonym u32 = "32 word"
type_synonym i32 = "32 word"

text \<open>\<^verbatim>\<open>struct uint128 { std::uint64_t high; std::uint64_t low; }\<close>\<close>

record uint128 =
  high :: u64
  low :: u64

text \<open>The number a \<^verbatim>\<open>uint128\<close> stands for: \<open>high * 2^64 + low\<close>.\<close>

definition uint128_value :: "uint128 \<Rightarrow> nat" where
  "uint128_value v = unat (high v) * 2 ^ 64 + unat (low v)"

subsection \<open>The build configurations\<close>

text \<open>
  \<^verbatim>\<open>operator+=\<close> and \<^verbatim>\<open>umul128\<close> choose one of four bodies by preprocessor
  conditionals. The configuration is a parameter of the model, one constructor for each
  branch, in the order of the source.
\<close>

datatype add_config = BUILTIN_ADDCLL | BUILTIN_ADDCARRYX | MSVC_X64 | PORTABLE_ADD

datatype mul_config = HAS_INT128 | MSVC_64BIT_INTRINSICS | ARM_UMULH | PORTABLE_MUL

subsection \<open>Compiler intrinsics\<close>

text \<open>
  The intrinsics are not code of the repository; they are modelled by what their
  documentation says. \<^verbatim>\<open>__builtin_addcll(x, y, carryin, &carryout)\<close> returns
  \<open>x + y + carryin\<close> and stores 1 in \<open>carryout\<close> when the sum does not fit 64 bits.
\<close>

definition builtin_addcll :: "u64 \<Rightarrow> u64 \<Rightarrow> u64 \<Rightarrow> u64 \<times> u64" where
  "builtin_addcll x y carryin =
     (x + y + carryin, if 2 ^ 64 \<le> unat x + unat y + unat carryin then 1 else 0)"

text \<open>
  \<^verbatim>\<open>_addcarry_u64(c_in, a, b, &out)\<close> and \<^verbatim>\<open>__builtin_ia32_addcarryx_u64\<close>: the sum
  \<open>a + b + (c_in \<noteq> 0)\<close> is stored, the carry out is returned (an \<^verbatim>\<open>unsigned char\<close>).
\<close>

definition addcarry_u64 :: "8 word \<Rightarrow> u64 \<Rightarrow> u64 \<Rightarrow> 8 word \<times> u64" where
  "addcarry_u64 c_in a b =
     (let c = (if c_in \<noteq> 0 then 1 else 0 :: nat)
      in (if 2 ^ 64 \<le> unat a + unat b + c then 1 else 0, a + b + of_nat c))"

text \<open>\<^verbatim>\<open>_umul128(x, y, &high)\<close> returns the low half of the product and stores the high half.\<close>

definition intrinsic_umul128 :: "u64 \<Rightarrow> u64 \<Rightarrow> u64 \<times> u64" where
  "intrinsic_umul128 x y =
     (word_of_nat (unat x * unat y mod 2 ^ 64), word_of_nat (unat x * unat y div 2 ^ 64))"

text \<open>\<^verbatim>\<open>__umulh(x, y)\<close>: the high half of the 128-bit product.\<close>

definition intrinsic_umulh :: "u64 \<Rightarrow> u64 \<Rightarrow> u64" where
  "intrinsic_umulh x y = word_of_nat (unat x * unat y div 2 ^ 64)"

subsection \<open>\<^verbatim>\<open>uint128::operator+=(std::uint64_t n)\<close>\<close>

fun add_assign :: "add_config \<Rightarrow> uint128 \<Rightarrow> u64 \<Rightarrow> uint128" where
  "add_assign BUILTIN_ADDCLL v n =
     (let (low1, carry) = builtin_addcll (low v) n 0;
          (high1, carry1) = builtin_addcll (high v) 0 carry
      in \<lparr>high = high1, low = low1\<rparr>)"
| "add_assign BUILTIN_ADDCARRYX v n =
     (let (carry, result) = addcarry_u64 0 (low v) n;
          low1 = result;
          (carry1, result1) = addcarry_u64 carry (high v) 0;
          high1 = result1
      in \<lparr>high = high1, low = low1\<rparr>)"
| "add_assign MSVC_X64 v n =
     (let (carry, low1) = addcarry_u64 0 (low v) n;
          (carry1, high1) = addcarry_u64 carry (high v) 0
      in \<lparr>high = high1, low = low1\<rparr>)"
| "add_assign PORTABLE_ADD v n =
     (let sum = low v + n;
          high1 = high v + (if sum < low v then 1 else 0)
      in \<lparr>high = high1, low = sum\<rparr>)"

subsection \<open>\<^verbatim>\<open>umul64\<close>, \<^verbatim>\<open>umul128\<close>, \<^verbatim>\<open>umul128_upper64\<close>, \<^verbatim>\<open>umul192_upper128\<close>\<close>

text \<open>\<^verbatim>\<open>return x * static_cast<std::uint64_t>(y);\<close> on two 32-bit operands.\<close>

definition umul64 :: "u32 \<Rightarrow> u32 \<Rightarrow> u64" where
  "umul64 x y = ucast x * ucast y"

text \<open>The portable branch: four 32 x 32 products and the column sums.\<close>

definition umul128_portable :: "u64 \<Rightarrow> u64 \<Rightarrow> uint128" where
  "umul128_portable x y =
     (let a = (ucast (drop_bit 32 x) :: u32);
          b = (ucast x :: u32);
          c = (ucast (drop_bit 32 y) :: u32);
          d = (ucast y :: u32);
          ac = umul64 a c;
          bc = umul64 b c;
          ad = umul64 a d;
          bd = umul64 b d;
          intermediate = drop_bit 32 bd + ucast (ucast ad :: u32) + ucast (ucast bc :: u32)
      in \<lparr>high = ac + drop_bit 32 intermediate + drop_bit 32 ad + drop_bit 32 bc,
          low = push_bit 32 intermediate + ucast (ucast bd :: u32)\<rparr>)"

fun umul128 :: "mul_config \<Rightarrow> u64 \<Rightarrow> u64 \<Rightarrow> uint128" where
  "umul128 HAS_INT128 x y =
     (let result = (ucast x :: 128 word) * (ucast y :: 128 word)
      in \<lparr>high = ucast (drop_bit 64 result), low = ucast result\<rparr>)"
| "umul128 MSVC_64BIT_INTRINSICS x y =
     (let (low1, high1) = intrinsic_umul128 x y in \<lparr>high = high1, low = low1\<rparr>)"
| "umul128 ARM_UMULH x y =
     (let high1 = intrinsic_umulh x y; low1 = x * y in \<lparr>high = high1, low = low1\<rparr>)"
| "umul128 PORTABLE_MUL x y = umul128_portable x y"

text \<open>
  \<^verbatim>\<open>umul128_upper64\<close> has three branches only: a build with \<^verbatim>\<open>__arm__\<close> and no
  128-bit type takes the portable one.
\<close>

fun umul128_upper64 :: "mul_config \<Rightarrow> u64 \<Rightarrow> u64 \<Rightarrow> u64" where
  "umul128_upper64 HAS_INT128 x y =
     (let result = (ucast x :: 128 word) * (ucast y :: 128 word)
      in ucast (drop_bit 64 result))"
| "umul128_upper64 MSVC_64BIT_INTRINSICS x y = intrinsic_umulh x y"
| "umul128_upper64 cfg x y =
     (let a = (ucast (drop_bit 32 x) :: u32);
          b = (ucast x :: u32);
          c = (ucast (drop_bit 32 y) :: u32);
          d = (ucast y :: u32);
          ac = umul64 a c;
          bc = umul64 b c;
          ad = umul64 a d;
          bd = umul64 b d;
          intermediate = drop_bit 32 bd + ucast (ucast ad :: u32) + ucast (ucast bc :: u32)
      in ac + drop_bit 32 intermediate + drop_bit 32 ad + drop_bit 32 bc)"

text \<open>
  \<^verbatim>\<open>auto r = umul128(x, y.high); r += umul128_upper64(x, y.low); return r;\<close>
\<close>

definition umul192_upper128 :: "mul_config \<Rightarrow> add_config \<Rightarrow> u64 \<Rightarrow> uint128 \<Rightarrow> uint128" where
  "umul192_upper128 mc ac x y =
     (let r = umul128 mc x (high y)
      in add_assign ac r (umul128_upper64 mc x (low y)))"

section \<open>digit_comparison.hpp: the collaborators that are not in the sources\<close>

text \<open>
  Modelled from the spec: \<^verbatim>\<open>adjusted_mantissa\<close> (float_common.hpp is absent), the
  spec's AdjustedMantissa \<open>{mantissa: u64, power2: i32}\<close>, of value
  \<open>mantissa * 2^power2\<close>. The 32-bit signed \<open>power2\<close> is a 32-bit word read by
  \<open>sint\<close>; its arithmetic wraps around.
\<close>

record adjusted_mantissa =
  mantissa :: u64
  power2 :: i32

text \<open>
  Modelled from the spec: \<^verbatim>\<open>binary_format<T>\<close> (float_common.hpp is absent), the
  spec's BinaryFormat: the constants of the floating-point type \<open>T\<close>, fixed at compile
  time. They are a parameter of the model. The three masks are values of the unsigned
  integer as wide as \<open>T\<close>, held here in 64 bits.
\<close>

record binary_format =
  mantissa_explicit_bits :: int
  minimum_exponent :: int
  infinite_power :: int
  max_digits :: nat
  exponent_mask :: u64
  mantissa_mask :: u64
  hidden_bit_mask :: u64

text \<open>The constants of IEEE-754 binary64 and binary32, as concrete parameters.\<close>

definition binary64 :: binary_format where
  "binary64 = \<lparr>mantissa_explicit_bits = 52, minimum_exponent = - 1023,
     infinite_power = 2047, max_digits = 769,
     exponent_mask = 9218868437227405312, mantissa_mask = 4503599627370495,
     hidden_bit_mask = 4503599627370496\<rparr>"

definition binary32 :: binary_format where
  "binary32 = \<lparr>mantissa_explicit_bits = 23, minimum_exponent = - 127,
     infinite_power = 255, max_digits = 114,
     exponent_mask = 2139095040, mantissa_mask = 8388607,
     hidden_bit_mask = 8388608\<rparr>"

text \<open>
  Modelled from the spec: \<^verbatim>\<open>parsed_number_string_t\<close> (ascii_number.hpp is absent), the
  spec's ParsedDecimal \<open>{integer_digits, fraction_digits, truncated_mantissa: u64,
  decimal_exponent: i32}\<close>. A span is the list of its code units; the fraction span may
  have a null pointer, which is \<open>None\<close>.
\<close>

record parsed_number_string =
  num_exponent :: i32
  num_mantissa :: u64
  integer :: string
  fraction :: "string option"

text \<open>
  Modelled from the spec: the big integer (bigint.hpp is absent), an unsigned magnitude
  with the operations multiply by a limb, add a limb, multiply by a power of 5, 2 or 10
  and exact three-way compare. It is a natural number. A scaling whose result exceeds the
  fixed capacity of the container (\<open>capacity\<close> bits, a parameter) returns false, which
  the callers assert: that is \<open>None\<close>.
\<close>

type_synonym bigint = nat

definition bigint_mul :: "bigint \<Rightarrow> nat \<Rightarrow> bigint" where
  "bigint_mul big y = big * y"

definition bigint_add :: "bigint \<Rightarrow> nat \<Rightarrow> bigint" where
  "bigint_add big y = big + y"

definition asserted :: "nat \<Rightarrow> bigint \<Rightarrow> bigint option" where
  "asserted capacity big = (if big < 2 ^ capacity then Some big else None)"

definition pow5 :: "nat \<Rightarrow> nat \<Rightarrow> bigint \<Rightarrow> bigint option" where
  "pow5 capacity n big = asserted capacity (big * 5 ^ n)"

definition pow2 :: "nat \<Rightarrow> nat \<Rightarrow> bigint \<Rightarrow> bigint option" where
  "pow2 capacity n big = asserted capacity (big * 2 ^ n)"

definition compare :: "bigint \<Rightarrow> bigint \<Rightarrow> int" where
  "compare x y = (if x > y then 1 else if x < y then - 1 else 0)"

definition pow10 :: "nat \<Rightarrow> nat \<Rightarrow> bigint \<Rightarrow> bigint option" where
  "pow10 capacity n big = asserted capacity (big * 10 ^ n)"

text \<open>
  Modelled from the spec: the bit length of the big integer, and its high 64 bits with
  the truncation flag: the 64 bits from the leading one bit on (a shorter number is
  shifted up, zero gives zero), and whether a one bit was left out below them.
\<close>

fun bit_length :: "bigint \<Rightarrow> nat" where
  "bit_length n = (if n = 0 then 0 else Suc (bit_length (n div 2)))"

declare bit_length.simps [simp del]

definition hi64 :: "bigint \<Rightarrow> u64 \<times> bool" where
  "hi64 big =
     (if big = 0 then (0, False)
      else if 64 \<le> bit_length big
      then (word_of_nat (big div 2 ^ (bit_length big - 64)),
            big mod 2 ^ (bit_length big - 64) \<noteq> 0)
      else (word_of_nat (big * 2 ^ (64 - bit_length big)), False))"

section \<open>digit_comparison.hpp\<close>

subsection \<open>Shifts of 64-bit values\<close>

text \<open>
  In C++ a shift of a 64-bit value by a negative count or by 64 or more is undefined.
  The model makes the shift partial: \<open>None\<close> outside \<open>0 \<le> n < 64\<close>.
\<close>

definition shl64 :: "u64 \<Rightarrow> int \<Rightarrow> u64 option" where
  "shl64 x n = (if 0 \<le> n \<and> n < 64 then Some (push_bit (nat n) x) else None)"

definition shr64 :: "u64 \<Rightarrow> int \<Rightarrow> u64 option" where
  "shr64 x n = (if 0 \<le> n \<and> n < 64 then Some (drop_bit (nat n) x) else None)"

subsection \<open>\<^verbatim>\<open>scientific_exponent\<close>\<close>

function loop_10000 :: "u64 \<Rightarrow> i32 \<Rightarrow> u64 \<times> i32" where
  "loop_10000 m e = (if 10000 \<le> m then loop_10000 (m div 10000) (e + 4) else (m, e))"
  by pat_completeness auto
termination
  by (relation "measure (\<lambda>(m, e). unat m)")
    (auto simp: unat_div word_le_nat_alt intro!: div_less_dividend)

function loop_100 :: "u64 \<Rightarrow> i32 \<Rightarrow> u64 \<times> i32" where
  "loop_100 m e = (if 100 \<le> m then loop_100 (m div 100) (e + 2) else (m, e))"
  by pat_completeness auto
termination
  by (relation "measure (\<lambda>(m, e). unat m)")
    (auto simp: unat_div word_le_nat_alt intro!: div_less_dividend)

function loop_10 :: "u64 \<Rightarrow> i32 \<Rightarrow> u64 \<times> i32" where
  "loop_10 m e = (if 10 \<le> m then loop_10 (m div 10) (e + 1) else (m, e))"
  by pat_completeness auto
termination
  by (relation "measure (\<lambda>(m, e). unat m)")
    (auto simp: unat_div word_le_nat_alt intro!: div_less_dividend)

declare loop_10000.simps [simp del] loop_100.simps [simp del] loop_10.simps [simp del]

definition scientific_exponent :: "parsed_number_string \<Rightarrow> i32" where
  "scientific_exponent num =
     (let (mantissa1, exponent1) = loop_10000 (num_mantissa num) (num_exponent num);
          (mantissa2, exponent2) = loop_100 mantissa1 exponent1;
          (mantissa3, exponent3) = loop_10 mantissa2 exponent2
      in exponent3)"

text \<open>
  One step of any of the three loops, in any order: the relation behind the claim that the
  order of the steps does not matter.
\<close>

inductive exponent_step :: "u64 \<times> i32 \<Rightarrow> u64 \<times> i32 \<Rightarrow> bool" where
  step_10000: "10000 \<le> m \<Longrightarrow> exponent_step (m, e) (m div 10000, e + 4)"
| step_100: "100 \<le> m \<Longrightarrow> exponent_step (m, e) (m div 100, e + 2)"
| step_10: "10 \<le> m \<Longrightarrow> exponent_step (m, e) (m div 10, e + 1)"

text \<open>
  The number of decimal digits of a natural number, for the statement of what
  \<^verbatim>\<open>scientific_exponent\<close> returns (the spec: the power-of-ten position of the
  leading digit).
\<close>

fun decimal_digits :: "nat \<Rightarrow> nat" where
  "decimal_digits n = (if n < 10 then 1 else Suc (decimal_digits (n div 10)))"

declare decimal_digits.simps [simp del]

subsection \<open>\<^verbatim>\<open>to_extended\<close>, \<^verbatim>\<open>to_extended_halfway\<close>\<close>

text \<open>A value of the floating type \<open>T\<close> is its bit pattern (\<^verbatim>\<open>bit_cast<equiv_uint>\<close>).\<close>

definition to_extended :: "binary_format \<Rightarrow> u64 \<Rightarrow> adjusted_mantissa option" where
  "to_extended fmt bits =
     (let bias = (word_of_int (mantissa_explicit_bits fmt - minimum_exponent fmt) :: i32)
      in if bits AND exponent_mask fmt = 0
         then Some \<lparr>mantissa = bits AND mantissa_mask fmt, power2 = 1 - bias\<rparr>
         else do {
           field \<leftarrow> shr64 (bits AND exponent_mask fmt) (mantissa_explicit_bits fmt);
           Some \<lparr>mantissa = (bits AND mantissa_mask fmt) OR hidden_bit_mask fmt,
                 power2 = (ucast field :: i32) - bias\<rparr>
         })"

definition to_extended_halfway :: "binary_format \<Rightarrow> u64 \<Rightarrow> adjusted_mantissa option" where
  "to_extended_halfway fmt bits = do {
     am \<leftarrow> to_extended fmt bits;
     Some \<lparr>mantissa = push_bit 1 (mantissa am) + 1, power2 = power2 am - 1\<rparr>
   }"

subsection \<open>\<^verbatim>\<open>round\<close>, \<^verbatim>\<open>round_nearest_tie_even\<close>, \<^verbatim>\<open>round_down\<close>\<close>

text \<open>
  \<^verbatim>\<open>round<T>(am, cb)\<close> is \<open>round_am\<close> here (\<open>round\<close> is a constant of HOL).
  Its callback takes the extended float and the shift and updates the
  extended float in place: here it returns the new one, or \<open>None\<close> when it ran into an
  undefined shift.
\<close>

definition round_am ::
  "binary_format \<Rightarrow> adjusted_mantissa \<Rightarrow> (adjusted_mantissa \<Rightarrow> i32 \<Rightarrow> adjusted_mantissa option)
   \<Rightarrow> adjusted_mantissa option" where
  "round_am fmt am cb =
     (let mantissa_shift = (word_of_int (64 - mantissa_explicit_bits fmt - 1) :: i32)
      in if mantissa_shift \<le>s - power2 am
         then do {
           let shift = - power2 am + 1;
           am1 \<leftarrow> cb am (if 64 <s shift then 64 else shift);
           hidden \<leftarrow> shl64 1 (mantissa_explicit_bits fmt);
           Some (am1\<lparr>power2 := (if mantissa am1 < hidden then 0 else 1)\<rparr>)
         }
         else do {
           am1 \<leftarrow> cb am mantissa_shift;
           carry \<leftarrow> shl64 2 (mantissa_explicit_bits fmt);
           hidden \<leftarrow> shl64 1 (mantissa_explicit_bits fmt);
           let am2 = (if carry \<le> mantissa am1
                      then am1\<lparr>mantissa := hidden, power2 := power2 am1 + 1\<rparr> else am1);
           let am3 = am2\<lparr>mantissa := mantissa am2 AND NOT hidden\<rparr>;
           Some (if word_of_int (infinite_power fmt) \<le>s power2 am3
                 then am3\<lparr>power2 := word_of_int (infinite_power fmt), mantissa := 0\<rparr>
                 else am3)
         })"

definition round_nearest_tie_even ::
  "adjusted_mantissa \<Rightarrow> i32 \<Rightarrow> (bool \<Rightarrow> bool \<Rightarrow> bool \<Rightarrow> bool) \<Rightarrow> adjusted_mantissa option" where
  "round_nearest_tie_even am shift cb = do {
     mask \<leftarrow> (if shift = 64 then Some (- 1)
              else map_option (\<lambda>m. m - 1) (shl64 1 (sint shift)));
     halfway \<leftarrow> (if shift = 0 then Some 0 else shl64 1 (sint (shift - 1)));
     let truncated_bits = mantissa am AND mask;
     let is_above = truncated_bits > halfway;
     let is_halfway = (truncated_bits = halfway);
     shifted \<leftarrow> (if shift = 64 then Some 0 else shr64 (mantissa am) (sint shift));
     let power = power2 am + shift;
     let is_odd = (shifted AND 1 = 1);
     Some \<lparr>mantissa = shifted + (if cb is_odd is_halfway is_above then 1 else 0),
           power2 = power\<rparr>
   }"

definition round_down :: "adjusted_mantissa \<Rightarrow> i32 \<Rightarrow> adjusted_mantissa option" where
  "round_down am shift = do {
     shifted \<leftarrow> (if shift = 64 then Some 0 else shr64 (mantissa am) (sint shift));
     Some \<lparr>mantissa = shifted, power2 = power2 am + shift\<rparr>
   }"

subsection \<open>\<^verbatim>\<open>BOOST_CHARCONV_ASSERT\<close>\<close>

text \<open>
  \<^verbatim>\<open>BOOST_CHARCONV_ASSERT\<close> (config.hpp is absent) wraps the calls that scale a big
  integer in place and return whether its capacity sufficed. The source marks the
  parameter \<^verbatim>\<open>exponent\<close> of \<^verbatim>\<open>positive_digit_comp\<close>, which occurs in such a call
  and nowhere else, \<^verbatim>\<open>BOOST_ATTRIBUTE_UNUSED\<close> (``Exponent is marked maybe unused''):
  there are builds where the macro expands to nothing and its argument is not
  evaluated. The build is a parameter: in a \<open>checked\<close> build the call is made and a
  false result stops the program (\<open>None\<close>); otherwise the call is not made and the big
  integer stays as it was.
\<close>

definition charconv_assert :: "bool \<Rightarrow> bigint \<Rightarrow> bigint option \<Rightarrow> bigint option" where
  "charconv_assert checked big outcome = (if checked then outcome else Some big)"

subsection \<open>\<^verbatim>\<open>negative_digit_comp\<close>\<close>

text \<open>
  Lines 465 to 479: the real digits stand for \<open>real_digits * 10^real_exp\<close>, the
  theoretical digits for \<open>theor_digits * 2^theor_exp\<close>.
\<close>

definition scale_digits ::
  "bool \<Rightarrow> nat \<Rightarrow> bigint \<Rightarrow> i32 \<Rightarrow> bigint \<Rightarrow> i32 \<Rightarrow> (bigint \<times> bigint) option" where
  "scale_digits checked capacity real_digits real_exp theor_digits theor_exp =
     (let pow2_exp = theor_exp - real_exp;
          pow5_exp = (ucast (- real_exp) :: u32)
      in do {
        theor_digits1 \<leftarrow>
          (if pow5_exp \<noteq> 0
           then charconv_assert checked theor_digits
                  (pow5 capacity (unat pow5_exp) theor_digits)
           else Some theor_digits);
        if 0 <s pow2_exp
        then do {
          theor_digits2 \<leftarrow> charconv_assert checked theor_digits1
             (pow2 capacity (unat (ucast pow2_exp :: u32)) theor_digits1);
          Some (real_digits, theor_digits2)
        }
        else if pow2_exp <s 0
        then do {
          real_digits1 \<leftarrow> charconv_assert checked real_digits
             (pow2 capacity (unat (ucast (- pow2_exp) :: u32)) real_digits);
          Some (real_digits1, theor_digits1)
        }
        else Some (real_digits, theor_digits1)
      })"

text \<open>
  Lines 452 to 482, up to the comparison. \<^verbatim>\<open>to_float\<close> (float_common.hpp is absent)
  assembles the bit pattern of \<open>T\<close> from an extended float; it is a parameter.
\<close>

definition negative_compare ::
  "binary_format \<Rightarrow> (bool \<Rightarrow> adjusted_mantissa \<Rightarrow> u64) \<Rightarrow> bool \<Rightarrow> nat
   \<Rightarrow> bigint \<Rightarrow> adjusted_mantissa \<Rightarrow> i32 \<Rightarrow> int option" where
  "negative_compare fmt to_float checked capacity bigmant am exponent = do {
     am_b \<leftarrow> round_am fmt am (\<lambda>a shift. round_down a shift);
     let b = to_float False am_b;
     theor \<leftarrow> to_extended_halfway fmt b;
     (real_digits, theor_digits) \<leftarrow>
        scale_digits checked capacity bigmant exponent (unat (mantissa theor)) (power2 theor);
     Some (compare real_digits theor_digits)
   }"

text \<open>The inner callback of lines 486 to 500, with the captured \<open>ord\<close> as an argument.\<close>

definition negative_decide :: "int \<Rightarrow> bool \<Rightarrow> bool \<Rightarrow> bool \<Rightarrow> bool" where
  "negative_decide ord is_odd is_halfway is_above =
     (if ord > 0 then True else if ord < 0 then False else is_odd)"

definition negative_digit_comp ::
  "binary_format \<Rightarrow> (bool \<Rightarrow> adjusted_mantissa \<Rightarrow> u64) \<Rightarrow> bool \<Rightarrow> nat
   \<Rightarrow> bigint \<Rightarrow> adjusted_mantissa \<Rightarrow> i32 \<Rightarrow> adjusted_mantissa option" where
  "negative_digit_comp fmt to_float checked capacity bigmant am exponent = do {
     ord \<leftarrow> negative_compare fmt to_float checked capacity bigmant am exponent;
     round_am fmt am (\<lambda>a shift. round_nearest_tie_even a shift (negative_decide ord))
   }"

subsection \<open>\<^verbatim>\<open>positive_digit_comp\<close>\<close>

definition positive_digit_comp ::
  "binary_format \<Rightarrow> bool \<Rightarrow> nat \<Rightarrow> bigint \<Rightarrow> i32 \<Rightarrow> adjusted_mantissa option" where
  "positive_digit_comp fmt checked capacity bigmant exponent = do {
     bigmant1 \<leftarrow> charconv_assert checked bigmant
        (pow10 capacity (unat (ucast exponent :: u32)) bigmant);
     let (hi, truncated) = hi64 bigmant1;
     let bias = mantissa_explicit_bits fmt - minimum_exponent fmt;
     let answer = \<lparr>mantissa = hi,
                    power2 = word_of_int (int (bit_length bigmant1) - 64 + bias)\<rparr>;
     round_am fmt answer (\<lambda>a shift. round_nearest_tie_even a shift
       (\<lambda>is_odd is_halfway is_above.
          is_above \<or> (is_halfway \<and> truncated) \<or> (is_odd \<and> is_halfway)))
   }"

subsection \<open>\<^verbatim>\<open>skip_zeros\<close>, \<^verbatim>\<open>is_truncated\<close>\<close>

text \<open>
  The build parameters of the digit accumulator: whether the limb has 64 bits
  (\<^verbatim>\<open>BOOST_CHARCONV_FASTFLOAT_64BIT\<close>), the code unit \<open>UC\<close>, and whether the call is
  evaluated at compile time (\<^verbatim>\<open>BOOST_CHARCONV_IS_CONSTANT_EVALUATED\<close>).
\<close>

datatype code_unit = UC_CHAR | UC_CHAR16 | UC_CHAR32

record parse_config =
  fastfloat_64bit :: bool
  uc :: code_unit
  constant_evaluated :: bool

definition step :: "parse_config \<Rightarrow> nat" where
  "step cfg = (if fastfloat_64bit cfg then 19 else 9)"

text \<open>A limb is a natural number below \<open>2^limb_bits\<close>; a conversion to limb wraps around.\<close>

definition limb_bits :: "parse_config \<Rightarrow> nat" where
  "limb_bits cfg = (if fastfloat_64bit cfg then 64 else 32)"

definition to_limb :: "parse_config \<Rightarrow> nat \<Rightarrow> nat" where
  "to_limb cfg n = n mod 2 ^ limb_bits cfg"

text \<open>
  Modelled from the spec: \<^verbatim>\<open>int_cmp_len<UC>()\<close> and \<^verbatim>\<open>int_cmp_zeros<UC>()\<close>
  (float_common.hpp is absent): the number of code units of 8, 16 or 32 bits that eight
  bytes hold, and the eight bytes of that many characters \<open>0\<close>.
\<close>

fun int_cmp_len :: "code_unit \<Rightarrow> nat" where
  "int_cmp_len UC_CHAR = 8"
| "int_cmp_len UC_CHAR16 = 4"
| "int_cmp_len UC_CHAR32 = 2"

definition int_cmp_zeros :: "code_unit \<Rightarrow> string" where
  "int_cmp_zeros u = replicate (int_cmp_len u) (CHR ''0'')"

text \<open>The pointer pair \<open>(first, last)\<close> is the list of the code units between them.\<close>

fun skip_zeros_chars :: "string \<Rightarrow> string" where
  "skip_zeros_chars [] = []"
| "skip_zeros_chars (c # p) = (if c \<noteq> CHR ''0'' then c # p else skip_zeros_chars p)"

function skip_zeros_words :: "parse_config \<Rightarrow> string \<Rightarrow> string" where
  "skip_zeros_words cfg p =
     (if \<not> constant_evaluated cfg \<and> int_cmp_len (uc cfg) \<le> length p
      then (if take (int_cmp_len (uc cfg)) p \<noteq> int_cmp_zeros (uc cfg) then p
            else skip_zeros_words cfg (drop (int_cmp_len (uc cfg)) p))
      else p)"
  by pat_completeness auto
termination
  by (relation "measure (\<lambda>(cfg, p). length p)") (auto, case_tac "uc cfg", auto)

declare skip_zeros_words.simps [simp del]

definition skip_zeros :: "parse_config \<Rightarrow> string \<Rightarrow> string" where
  "skip_zeros cfg p = skip_zeros_chars (skip_zeros_words cfg p)"

fun is_truncated_chars :: "string \<Rightarrow> bool" where
  "is_truncated_chars [] = False"
| "is_truncated_chars (c # p) = (if c \<noteq> CHR ''0'' then True else is_truncated_chars p)"

function is_truncated :: "parse_config \<Rightarrow> string \<Rightarrow> bool" where
  "is_truncated cfg p =
     (if \<not> constant_evaluated cfg \<and> int_cmp_len (uc cfg) \<le> length p
      then (if take (int_cmp_len (uc cfg)) p \<noteq> int_cmp_zeros (uc cfg) then True
            else is_truncated cfg (drop (int_cmp_len (uc cfg)) p))
      else is_truncated_chars p)"
  by pat_completeness auto
termination
  by (relation "measure (\<lambda>(cfg, p). length p)") (auto, case_tac "uc cfg", auto)

declare is_truncated.simps [simp del]

subsection \<open>\<^verbatim>\<open>parse_eight_digits\<close>, \<^verbatim>\<open>parse_one_digit\<close>, \<^verbatim>\<open>add_native\<close>, \<^verbatim>\<open>round_up_bigint\<close>\<close>

text \<open>
  The value of a digit character: \<^verbatim>\<open>*p - '0'\<close>, converted to a limb. The code
  unit is read as an unsigned value; where plain \<^verbatim>\<open>char\<close> is signed, the source
  differs from this on the code units from 0x80 on, none of which is a digit.
\<close>

definition digit_limb :: "parse_config \<Rightarrow> char \<Rightarrow> nat" where
  "digit_limb cfg c = nat ((int (of_char c :: nat) - 48) mod 2 ^ limb_bits cfg)"

text \<open>
  Modelled from the spec: \<^verbatim>\<open>parse_eight_digits_unrolled\<close> (ascii_number.hpp is absent),
  the unrolled parse of eight digits: their decimal value.
\<close>

definition parse_eight_digits_unrolled :: "string \<Rightarrow> nat" where
  "parse_eight_digits_unrolled p =
     foldl (\<lambda>a c. a * 10 + (of_char c - 48)) 0 (take 8 p)"

definition parse_eight_digits ::
  "parse_config \<Rightarrow> string \<Rightarrow> nat \<Rightarrow> nat \<Rightarrow> nat \<Rightarrow> string \<times> nat \<times> nat \<times> nat" where
  "parse_eight_digits cfg p val counter count =
     (drop 8 p, to_limb cfg (val * 100000000 + parse_eight_digits_unrolled p),
      counter + 8, count + 8)"

definition parse_one_digit ::
  "parse_config \<Rightarrow> char \<Rightarrow> string \<Rightarrow> nat \<Rightarrow> nat \<Rightarrow> nat \<Rightarrow> string \<times> nat \<times> nat \<times> nat" where
  "parse_one_digit cfg c p val counter count =
     (p, to_limb cfg (val * 10 + digit_limb cfg c), counter + 1, count + 1)"

definition add_native :: "bigint \<Rightarrow> nat \<Rightarrow> nat \<Rightarrow> bigint" where
  "add_native big pow val = bigint_add (bigint_mul big pow) val"

definition round_up_bigint :: "bigint \<Rightarrow> nat \<Rightarrow> bigint \<times> nat" where
  "round_up_bigint big count = (add_native big 10 1, count + 1)"

subsection \<open>\<^verbatim>\<open>parse_mantissa\<close>\<close>

definition powers_of_ten_uint64 :: "u64 list" where
  "powers_of_ten_uint64 =
     [1, 10, 100, 1000, 10000, 100000, 1000000, 10000000, 100000000, 1000000000,
      10000000000, 100000000000, 1000000000000, 10000000000000, 100000000000000,
      1000000000000000, 10000000000000000, 100000000000000000, 1000000000000000000,
      10000000000000000000]"

text \<open>A read of the table of 20 entries; past its end there is no value.\<close>

definition power_of_ten :: "parse_config \<Rightarrow> nat \<Rightarrow> nat option" where
  "power_of_ten cfg counter =
     (if counter < length powers_of_ten_uint64
      then Some (to_limb cfg (unat (powers_of_ten_uint64 ! counter))) else None)"

text \<open>A difference of two \<^verbatim>\<open>std::size_t\<close> values wraps around at \<open>2^64\<close>.\<close>

definition size_sub :: "nat \<Rightarrow> nat \<Rightarrow> nat" where
  "size_sub a b = nat ((int a - int b) mod 2 ^ 64)"

text \<open>
  The loop of \<^verbatim>\<open>parse_eight_digits\<close> (lines 329 to 332 and 377 to 380). The
  parameter \<^verbatim>\<open>max_digits\<close> of the source is \<open>max_count\<close> here.
\<close>

function eight_digits_loop ::
  "parse_config \<Rightarrow> nat \<Rightarrow> string \<Rightarrow> nat \<Rightarrow> nat \<Rightarrow> nat \<Rightarrow> string \<times> nat \<times> nat \<times> nat" where
  "eight_digits_loop cfg max_count p val counter digits =
     (if 8 \<le> length p \<and> 8 \<le> size_sub (step cfg) counter \<and> 8 \<le> size_sub max_count digits
      then (case parse_eight_digits cfg p val counter digits of
              (p1, val1, counter1, digits1) \<Rightarrow>
                eight_digits_loop cfg max_count p1 val1 counter1 digits1)
      else (p, val, counter, digits))"
  by pat_completeness auto
termination
  by (relation "measure (\<lambda>(cfg, max_count, p, val, counter, digits). length p)")
    (auto simp: parse_eight_digits_def)

declare eight_digits_loop.simps [simp del]

text \<open>The loop of \<^verbatim>\<open>parse_one_digit\<close> (lines 335 to 338 and 382 to 385).\<close>

function one_digit_loop ::
  "parse_config \<Rightarrow> nat \<Rightarrow> string \<Rightarrow> nat \<Rightarrow> nat \<Rightarrow> nat \<Rightarrow> string \<times> nat \<times> nat \<times> nat" where
  "one_digit_loop cfg max_count [] val counter digits = ([], val, counter, digits)"
| "one_digit_loop cfg max_count (c # p) val counter digits =
     (if counter < step cfg \<and> digits < max_count
      then (case parse_one_digit cfg c p val counter digits of
              (p1, val1, counter1, digits1) \<Rightarrow>
                one_digit_loop cfg max_count p1 val1 counter1 digits1)
      else (c # p, val, counter, digits))"
  by pat_completeness auto
termination
  by (relation "measure (\<lambda>(cfg, max_count, p, val, counter, digits). length p)")
    (auto simp: parse_one_digit_def)

text \<open>
  How one of the two \<^verbatim>\<open>while (p != pend)\<close> loops ends: by the \<^verbatim>\<open>return\<close> inside it,
  with the big integer and the digit count, or by \<open>p = pend\<close>, with the big integer, the
  digit count, and the \<open>counter\<close> and \<open>value\<close> that the code after the loop reads.
\<close>

datatype loop_exit = Returned bigint nat | Finished bigint nat nat nat

text \<open>
  The two loops (lines 325 to 361 and 373 to 403) differ in the truncation test only:
  the first one also scans the fraction span when its pointer is not null. \<open>rest\<close> is
  that span for the first loop and \<open>None\<close> for the second. An iteration that neither
  returns nor moves \<open>p\<close> would repeat for ever, and a read past the end of the table has
  no value: both are \<open>None\<close>.
\<close>

partial_function (option) digits_loop ::
  "parse_config \<Rightarrow> nat \<Rightarrow> string option \<Rightarrow> string \<Rightarrow> nat \<Rightarrow> nat \<Rightarrow> nat \<Rightarrow> bigint
   \<Rightarrow> loop_exit option" where
  "digits_loop cfg max_count rest p val counter digits result =
     (if p = [] then Some (Finished result digits counter val)
      else
        (case (if uc cfg = UC_CHAR then eight_digits_loop cfg max_count p val counter digits
               else (p, val, counter, digits)) of
          (p1, val1, counter1, digits1) \<Rightarrow>
        (case one_digit_loop cfg max_count p1 val1 counter1 digits1 of
          (p2, val2, counter2, digits2) \<Rightarrow>
        (case power_of_ten cfg counter2 of
          None \<Rightarrow> None
        | Some pow \<Rightarrow>
            if digits2 = max_count
            then
              let result1 = add_native result pow val2;
                  truncated = (is_truncated cfg p2
                     \<or> (case rest of None \<Rightarrow> False | Some f \<Rightarrow> is_truncated cfg f))
              in if truncated
                 then (case round_up_bigint result1 digits2 of
                         (result2, digits3) \<Rightarrow> Some (Returned result2 digits3))
                 else Some (Returned result1 digits2)
            else digits_loop cfg max_count rest p2 0 0 digits2
                   (add_native result pow val2)))))"

declare digits_loop.simps [code]

definition parse_mantissa ::
  "parse_config \<Rightarrow> bigint \<Rightarrow> parsed_number_string \<Rightarrow> nat \<Rightarrow> (bigint \<times> nat) option" where
  "parse_mantissa cfg result num max_count =
     (case digits_loop cfg max_count (fraction num) (skip_zeros cfg (integer num))
             0 0 0 result of
        None \<Rightarrow> None
      | Some (Returned result1 digits1) \<Rightarrow> Some (result1, digits1)
      | Some (Finished result1 digits1 counter1 val1) \<Rightarrow>
          (case (case fraction num of
                   None \<Rightarrow> Some (Finished result1 digits1 counter1 val1)
                 | Some f \<Rightarrow>
                     digits_loop cfg max_count None
                       (if digits1 = 0 then skip_zeros cfg f else f)
                       val1 counter1 digits1 result1) of
             None \<Rightarrow> None
           | Some (Returned result2 digits2) \<Rightarrow> Some (result2, digits2)
           | Some (Finished result2 digits2 counter2 val2) \<Rightarrow>
               if counter2 \<noteq> 0
               then (case power_of_ten cfg counter2 of
                       None \<Rightarrow> None
                     | Some pow \<Rightarrow> Some (add_native result2 pow val2, digits2))
               else Some (result2, digits2)))"

text \<open>
  What the spec says the accumulator holds: the significant digits are the integer
  digits without their leading zeros, followed by the fraction digits (without their
  leading zeros when no integer digit was kept); \<open>digits_value\<close> is the number they
  write.
\<close>

definition significant_digits :: "parsed_number_string \<Rightarrow> string" where
  "significant_digits num =
     (let ip = dropWhile (\<lambda>c. c = CHR ''0'') (integer num)
      in case fraction num of
           None \<Rightarrow> ip
         | Some f \<Rightarrow> ip @ (if ip = [] then dropWhile (\<lambda>c. c = CHR ''0'') f else f))"

definition digits_value :: "string \<Rightarrow> nat" where
  "digits_value ds = foldl (\<lambda>a c. a * 10 + (of_char c - 48)) 0 ds"

definition is_digit :: "char \<Rightarrow> bool" where
  "is_digit c = (48 \<le> (of_char c :: nat) \<and> (of_char c :: nat) \<le> 57)"

definition digit_spans :: "parsed_number_string \<Rightarrow> bool" where
  "digit_spans num =
     (list_all is_digit (integer num)
      \<and> (case fraction num of None \<Rightarrow> True | Some f \<Rightarrow> list_all is_digit f))"

subsection \<open>\<^verbatim>\<open>digit_comp\<close>\<close>

text \<open>
  \<^verbatim>\<open>invalid_am_bias\<close> (float_common.hpp is absent) is a parameter. The big integer
  \<^verbatim>\<open>bigmant\<close> starts at zero.
\<close>

definition digit_comp ::
  "binary_format \<Rightarrow> (bool \<Rightarrow> adjusted_mantissa \<Rightarrow> u64) \<Rightarrow> bool \<Rightarrow> nat \<Rightarrow> parse_config
   \<Rightarrow> i32 \<Rightarrow> parsed_number_string \<Rightarrow> adjusted_mantissa \<Rightarrow> adjusted_mantissa option" where
  "digit_comp fmt to_float checked capacity cfg invalid_am_bias num am =
     (let am1 = am\<lparr>power2 := power2 am - invalid_am_bias\<rparr>;
          sci_exp = scientific_exponent num
      in case parse_mantissa cfg 0 num (max_digits fmt) of
           None \<Rightarrow> None
         | Some (bigmant, digits) \<Rightarrow>
             let exponent = sci_exp + 1 - (word_of_nat digits :: i32)
             in if 0 \<le>s exponent
                then positive_digit_comp fmt checked capacity bigmant exponent
                else negative_digit_comp fmt to_float checked capacity bigmant am1 exponent)"

text \<open>
  Modelled from the spec: \<^verbatim>\<open>to_float\<close> (float_common.hpp is absent), the spec's
  external bit-pattern assembler that combines sign, mantissa and power2 into the value
  of \<open>T\<close>: the mantissa in the low bits, \<open>power2\<close> in the exponent field above the
  explicit bits, the sign on top (the layout \<^verbatim>\<open>to_extended\<close> reads back). The
  functions above take \<^verbatim>\<open>to_float\<close> as a parameter; this one serves to run them on
  concrete inputs.
\<close>

definition ieee_to_float :: "binary_format \<Rightarrow> nat \<Rightarrow> bool \<Rightarrow> adjusted_mantissa \<Rightarrow> u64" where
  "ieee_to_float fmt sign_index negative am =
     mantissa am OR push_bit (nat (mantissa_explicit_bits fmt)) (ucast (power2 am))
       OR push_bit sign_index (if negative then 1 else 0)"

section \<open>Arithmetic of 64-bit words, read as natural numbers\<close>

lemma unat_u32_lt: "unat (x :: u32) < 4294967296"
  using unsigned_less [of x, where 'a = nat] by simp

lemma unat_u64_lt: "unat (x :: u64) < 18446744073709551616"
  using unsigned_less [of x, where 'a = nat] by simp

lemma unat_up32: "unat (ucast (x :: u32) :: u64) = unat x"
proof -
  have "unat (ucast x :: u64) = take_bit 64 (unat x)"
    by (simp add: unsigned_ucast_eq)
  also have "\<dots> = unat x"
    using unat_u32_lt [of x] by (simp add: take_bit_nat_eq_self)
  finally show ?thesis .
qed

lemma unat_umul64: "unat (umul64 x y) = unat x * unat y"
proof -
  have "unat x * unat y < 4294967296 * 4294967296"
    by (intro mult_strict_mono unat_u32_lt) simp_all
  then have "unat x * unat y < 2 ^ 64"
    by simp
  then show ?thesis
    unfolding umul64_def by (simp add: unat_word_ariths unat_up32)
qed

lemma unat_shr32: "unat (drop_bit 32 (x :: u64)) = unat x div 2 ^ 32"
  by (simp only: unat_drop_bit_eq) (simp add: drop_bit_eq_div)

lemma unat_lo32: "unat (ucast (x :: u64) :: u32) = unat x mod 2 ^ 32"
  by (simp add: unsigned_ucast_eq take_bit_eq_mod)

lemma unat_hi32: "unat (ucast (drop_bit 32 (x :: u64)) :: u32) = unat x div 2 ^ 32"
proof -
  have "unat x div 2 ^ 32 < 2 ^ 32"
    using unat_u64_lt [of x] by simp
  then show ?thesis
    by (simp only: unat_lo32 unat_shr32 mod_less)
qed

lemma unat_shl32: "unat (push_bit 32 (x :: u64)) = (unat x * 2 ^ 32) mod 2 ^ 64"
  by (simp only: unsigned_push_bit_eq) (simp add: push_bit_eq_mult take_bit_eq_mod)

lemma unat_add64: "unat ((x :: u64) + y) = (unat x + unat y) mod 2 ^ 64"
  by (simp add: unat_word_ariths)

lemma unat_mul64: "unat ((x :: u64) * y) = (unat x * unat y) mod 2 ^ 64"
  by (simp add: unat_word_ariths)

lemma unat_split32: "unat (x :: u64) = (unat x div 2 ^ 32) * 2 ^ 32 + unat x mod 2 ^ 32"
  by simp

text \<open>The schoolbook product of two two-digit numbers in base \<open>W\<close>, with the carries
  of the middle column collected as the portable branch does.\<close>

lemma four_way_product:
  fixes a b c d W :: nat
  assumes W: "0 < W"
  defines "mid \<equiv> (b * d) div W + (a * d) mod W + (b * c) mod W"
  shows "(a * W + b) * (c * W + d) =
         (a * c + mid div W + (a * d) div W + (b * c) div W) * (W * W)
         + ((mid * W) mod (W * W) + (b * d) mod W)"
    and "(mid * W) mod (W * W) + (b * d) mod W < W * W"
proof -
  have lowpart: "(mid * W) mod (W * W) = (mid mod W) * W"
    by (rule mod_mult_mult2)
  obtain adh adl where ad: "a * d = adh * W + adl" "adh = (a * d) div W" "adl = (a * d) mod W"
    by simp
  obtain bch bcl where bc: "b * c = bch * W + bcl" "bch = (b * c) div W" "bcl = (b * c) mod W"
    by simp
  obtain bdh bdl where bd: "b * d = bdh * W + bdl" "bdh = (b * d) div W" "bdl = (b * d) mod W"
    by simp
  obtain ih il where i: "mid = ih * W + il" "ih = mid div W" "il = mid mod W"
    by simp
  have cols: "ih * W + il = bdh + adl + bcl"
    using i(1) by (simp add: mid_def ad(3) bc(3) bd(2))
  have "(a * W + b) * (c * W + d) = a * c * (W * W) + (a * d) * W + (b * c) * W + b * d"
    by (simp add: algebra_simps)
  also have "\<dots> = a * c * (W * W) + (adh * W + adl) * W + (bch * W + bcl) * W + (bdh * W + bdl)"
    by (simp only: ad(1) bc(1) bd(1))
  also have "\<dots> = (a * c + adh + bch) * (W * W) + (bdh + adl + bcl) * W + bdl"
    by (simp add: algebra_simps)
  also have "\<dots> = (a * c + adh + bch) * (W * W) + (ih * W + il) * W + bdl"
    by (simp only: cols)
  also have "\<dots> = (a * c + ih + adh + bch) * (W * W) + (il * W + bdl)"
    by (simp add: algebra_simps)
  finally show "(a * W + b) * (c * W + d) =
         (a * c + mid div W + (a * d) div W + (b * c) div W) * (W * W)
         + ((mid * W) mod (W * W) + (b * d) mod W)"
    by (simp only: lowpart i(2,3) [symmetric] ad(2) [symmetric] bc(2) [symmetric]
        bd(3) [symmetric])
  have "mid mod W \<le> W - 1"
    using mod_less_divisor [OF W, of mid] by linarith
  then have "(mid mod W) * W \<le> (W - 1) * W"
    by (rule mult_right_mono) simp
  moreover have "(b * d) mod W < W"
    using W by simp
  moreover have "(W - 1) * W + W = W * W"
    using W by (cases W) simp_all
  ultimately show "(mid * W) mod (W * W) + (b * d) mod W < W * W"
    unfolding lowpart by linarith
qed

text \<open>The portable branch of \<^verbatim>\<open>umul128\<close> computes both halves of the exact product.\<close>

lemma portable_halves:
  "unat (high (umul128_portable x y)) = (unat x * unat y) div 2 ^ 64"
  "unat (low (umul128_portable x y)) = (unat x * unat y) mod 2 ^ 64"
proof -
  define a b c d where "a = unat x div 2 ^ 32" and "b = unat x mod 2 ^ 32"
    and "c = unat y div 2 ^ 32" and "d = unat y mod 2 ^ 32"
  define W :: nat where "W = 2 ^ 32"
  define mid where "mid = (b * d) div W + (a * d) mod W + (b * c) mod W"
  define H where "H = a * c + mid div W + (a * d) div W + (b * c) div W"
  define L where "L = (mid * W) mod (W * W) + (b * d) mod W"
  have W: "0 < W" by (simp add: W_def)
  have xy: "unat x = a * W + b" "unat y = c * W + d"
    by (simp_all add: a_def b_def c_def d_def W_def)
  have prod: "unat x * unat y = H * (W * W) + L" and L: "L < W * W"
    unfolding xy H_def L_def mid_def by (rule four_way_product [OF W])+
  have WW: "W * W = 2 ^ 64" by (simp add: W_def)
  have H: "H = (unat x * unat y) div 2 ^ 64" and L': "L = (unat x * unat y) mod 2 ^ 64"
    using prod L unfolding WW by simp_all
  have Hlt: "H < 2 ^ 64"
  proof -
    have "unat x * unat y < 2 ^ 64 * 2 ^ 64"
      using unat_u64_lt [of x] unat_u64_lt [of y] by (intro mult_strict_mono) simp_all
    then show ?thesis unfolding H by (simp add: less_mult_imp_div_less)
  qed
  have blt: "b < W" "d < W" by (simp_all add: b_def d_def W_def)
  have midlt: "mid < 2 ^ 64"
  proof -
    have "b * d < W * W" using blt by (intro mult_strict_mono) simp_all
    then have "(b * d) div W < W" using W by (simp add: less_mult_imp_div_less)
    moreover have "(a * d) mod W < W" "(b * c) mod W < W" using W by simp_all
    ultimately have "mid < 3 * W" unfolding mid_def by linarith
    then show ?thesis by (simp add: W_def)
  qed
  define wa wb wc wd where "wa = (ucast (drop_bit 32 x) :: u32)" and "wb = (ucast x :: u32)"
    and "wc = (ucast (drop_bit 32 y) :: u32)" and "wd = (ucast y :: u32)"
  define im where "im = drop_bit 32 (umul64 wb wd) + ucast (ucast (umul64 wa wd) :: u32)
      + ucast (ucast (umul64 wb wc) :: u32)"
  have w: "unat wa = a" "unat wb = b" "unat wc = c" "unat wd = d"
    unfolding wa_def wb_def wc_def wd_def a_def b_def c_def d_def
    by (rule unat_hi32 unat_lo32)+
  have "unat im = (b * d div W + (a * d) mod W + (b * c) mod W) mod 2 ^ 64"
    unfolding im_def 
    by (simp only: unat_add64 unat_shr32 unat_up32 unat_lo32 unat_umul64 w W_def mod_add_left_eq)
  then have im: "unat im = mid"
    using midlt unfolding mid_def by simp
  have hi: "high (umul128_portable x y) = umul64 wa wc + drop_bit 32 im + drop_bit 32 (umul64 wa wd)
      + drop_bit 32 (umul64 wb wc)"
    and lo: "low (umul128_portable x y) = push_bit 32 im + ucast (ucast (umul64 wb wd) :: u32)"
    by (simp_all add: umul128_portable_def Let_def wa_def wb_def wc_def wd_def im_def)
  have "unat (high (umul128_portable x y)) = H mod 2 ^ 64"
    unfolding hi H_def
    by (simp only: unat_add64 unat_shr32 unat_umul64 w im W_def mod_add_left_eq)
  then show "unat (high (umul128_portable x y)) = (unat x * unat y) div 2 ^ 64"
    using Hlt H by simp
  have "unat (low (umul128_portable x y)) = L mod 2 ^ 64"
    unfolding lo L_def WW
    by (simp only: unat_add64 unat_shl32 unat_up32 unat_lo32 unat_umul64 w im W_def mod_add_left_eq)
  then show "unat (low (umul128_portable x y)) = (unat x * unat y) mod 2 ^ 64"
    using L L' unfolding WW by simp
qed

lemma product_u64_lt: "unat (x :: u64) * unat (y :: u64) < 2 ^ 128"
proof -
  have "unat x * unat y < 2 ^ 64 * 2 ^ 64"
    using unat_u64_lt [of x] unat_u64_lt [of y] by (intro mult_strict_mono) simp_all
  then show ?thesis by simp
qed

lemma product_u64_div_lt: "unat (x :: u64) * unat (y :: u64) div 2 ^ 64 < 2 ^ 64"
  using product_u64_lt [of x y] by (simp add: less_mult_imp_div_less)

lemma unat_wide_product:
  "unat ((ucast (x :: u64) :: 128 word) * (ucast (y :: u64) :: 128 word)) = unat x * unat y"
proof -
  have up: "unat (ucast z :: 128 word) = unat z" for z :: u64
  proof -
    have "unat (ucast z :: 128 word) = take_bit 128 (unat z)"
      by (simp add: unsigned_ucast_eq)
    also have "\<dots> = unat z"
      using unat_u64_lt [of z] by (simp add: take_bit_nat_eq_self)
    finally show ?thesis .
  qed
  show ?thesis
    using product_u64_lt [of x y] by (simp add: unat_word_ariths up)
qed

lemma unat_wide_high:
  "unat (ucast (drop_bit 64 (r :: 128 word)) :: u64) = unat r div 2 ^ 64"
proof -
  have "unat r < 2 ^ 128"
    using unsigned_less [of r, where 'a = nat] by simp
  then have "unat r div 2 ^ 64 < 2 ^ 64"
    by (simp add: less_mult_imp_div_less)
  moreover have "unat (drop_bit 64 r) = unat r div 2 ^ 64"
    by (simp only: unat_drop_bit_eq) (simp add: drop_bit_eq_div)
  moreover have "unat (ucast w :: u64) = unat w mod 2 ^ 64" for w :: "128 word"
    by (simp add: unsigned_ucast_eq take_bit_eq_mod)
  ultimately show ?thesis
    by simp
qed

lemma unat_wide_low: "unat (ucast (r :: 128 word) :: u64) = unat r mod 2 ^ 64"
  by (simp add: unsigned_ucast_eq take_bit_eq_mod)

lemma unat_intrinsic_umulh: "unat (intrinsic_umulh x y) = (unat x * unat y) div 2 ^ 64"
  unfolding intrinsic_umulh_def using product_u64_div_lt [of x y]
  by (simp add: unat_of_nat)

lemma umul128_halves:
  "unat (high (umul128 cfg x y)) = (unat x * unat y) div 2 ^ 64"
  "unat (low (umul128 cfg x y)) = (unat x * unat y) mod 2 ^ 64"
proof -
  show "unat (high (umul128 cfg x y)) = (unat x * unat y) div 2 ^ 64"
  proof (cases cfg)
    case HAS_INT128
    then show ?thesis
      by (simp only: umul128.simps Let_def uint128.simps unat_wide_high unat_wide_product)
  next
    case MSVC_64BIT_INTRINSICS
    then show ?thesis
      using unat_intrinsic_umulh [of x y]
      by (simp add: intrinsic_umul128_def intrinsic_umulh_def)
  next
    case ARM_UMULH
    then show ?thesis
      by (simp add: unat_intrinsic_umulh)
  next
    case PORTABLE_MUL
    then show ?thesis
      by (simp only: umul128.simps portable_halves)
  qed
  show "unat (low (umul128 cfg x y)) = (unat x * unat y) mod 2 ^ 64"
  proof (cases cfg)
    case HAS_INT128
    then show ?thesis
      by (simp only: umul128.simps Let_def uint128.simps unat_wide_low unat_wide_product)
  next
    case MSVC_64BIT_INTRINSICS
    then show ?thesis
      by (simp add: intrinsic_umul128_def unat_of_nat)
  next
    case ARM_UMULH
    then show ?thesis
      by (simp add: unat_mul64)
  next
    case PORTABLE_MUL
    then show ?thesis
      by (simp only: umul128.simps portable_halves)
  qed
qed

lemma uint128_eqI:
  assumes "unat (high a) = unat (high b)" "unat (low a) = unat (low b)"
  shows "(a :: uint128) = b"
  using assms by (cases a, cases b) (simp add: word_unat_eq_iff)

lemma unat_umul128_upper64: "unat (umul128_upper64 cfg x y) = (unat x * unat y) div 2 ^ 64"
proof -
  have portable: "unat (high (umul128_portable x y)) = (unat x * unat y) div 2 ^ 64"
    by (rule portable_halves)
  show ?thesis
  proof (cases cfg)
    case HAS_INT128
    then show ?thesis
      by (simp only: umul128_upper64.simps Let_def unat_wide_high unat_wide_product)
  next
    case MSVC_64BIT_INTRINSICS
    then show ?thesis
      by (simp add: unat_intrinsic_umulh)
  next
    case ARM_UMULH
    then show ?thesis
      using portable by (simp add: umul128_portable_def Let_def)
  next
    case PORTABLE_MUL
    then show ?thesis
      using portable by (simp add: umul128_portable_def Let_def)
  qed
qed

text \<open>The portable carry test \<^verbatim>\<open>sum < low\<close> holds exactly when the sum left 64 bits.\<close>

lemma wrap_iff: "(x + n < x) = (2 ^ 64 \<le> unat x + unat n)" for x n :: u64
proof -
  have lt: "unat x < 2 ^ 64" "unat n < 2 ^ 64"
    using unat_u64_lt [of x] unat_u64_lt [of n] by simp_all
  show ?thesis
  proof (cases "unat x + unat n < 2 ^ 64")
    case True
    then have "unat (x + n) = unat x + unat n"
      by (simp add: unat_add64)
    then show ?thesis
      using True by (simp add: word_less_nat_alt)
  next
    case False
    then have "(unat x + unat n) mod 2 ^ 64 = unat x + unat n - 2 ^ 64"
      using lt by (simp add: mod_if)
    then have "unat (x + n) = unat x + unat n - 2 ^ 64"
      by (simp only: unat_add64)
    then show ?thesis
      using False lt by (simp add: word_less_nat_alt)
  qed
qed

lemma add_assign_portable_halves:
  "unat (low (add_assign PORTABLE_ADD v n)) = (unat (low v) + unat n) mod 2 ^ 64"
  "unat (high (add_assign PORTABLE_ADD v n)) =
     (unat (high v) + (unat (low v) + unat n) div 2 ^ 64) mod 2 ^ 64"
proof -
  show "unat (low (add_assign PORTABLE_ADD v n)) = (unat (low v) + unat n) mod 2 ^ 64"
    by (simp add: Let_def unat_add64)
  have lt: "unat (low v) + unat n < 2 * 2 ^ 64"
    using unat_u64_lt [of "low v"] unat_u64_lt [of n] by simp
  have carry: "(unat (low v) + unat n) div 2 ^ 64 = (if 2 ^ 64 \<le> unat (low v) + unat n then 1 else 0)"
  proof (cases "2 ^ 64 \<le> unat (low v) + unat n")
    case True
    then have "(unat (low v) + unat n) div 2 ^ 64 = Suc ((unat (low v) + unat n - 2 ^ 64) div 2 ^ 64)"
      by (simp add: div_if)
    then show ?thesis using True lt by simp 
  next
    case False
    then show ?thesis by simp
  qed
  show "unat (high (add_assign PORTABLE_ADD v n)) =
     (unat (high v) + (unat (low v) + unat n) div 2 ^ 64) mod 2 ^ 64"
    unfolding carry by (simp add: Let_def wrap_iff unat_add64)
qed

lemma add_assign_config: "add_assign cfg v n = add_assign PORTABLE_ADD v n"
proof (cases cfg)
  case BUILTIN_ADDCLL
  then show ?thesis
    by (simp add: builtin_addcll_def Let_def wrap_iff)
next
  case BUILTIN_ADDCARRYX
  then show ?thesis
    by (simp add: addcarry_u64_def Let_def wrap_iff)
next
  case MSVC_X64
  then show ?thesis
    by (simp add: addcarry_u64_def Let_def wrap_iff)
next
  case PORTABLE_ADD
  then show ?thesis by simp
qed

lemma add_assign_value:
  "uint128_value (add_assign cfg v n) = (uint128_value v + unat n) mod 2 ^ 128"
proof -
  define h l k where "h = unat (high v)" and "l = unat (low v)" and "k = unat n"
  have "uint128_value (add_assign cfg v n) = ((h + (l + k) div 2 ^ 64) mod 2 ^ 64) * 2 ^ 64 + (l + k) mod 2 ^ 64"
    unfolding uint128_value_def add_assign_config [of cfg] add_assign_portable_halves h_def l_def k_def ..
  also have "\<dots> = ((h + (l + k) div 2 ^ 64) * 2 ^ 64) mod (2 ^ 64 * 2 ^ 64) + (l + k) mod 2 ^ 64"
    by (simp only: mod_mult_mult2)
  also have "\<dots> = ((h + (l + k) div 2 ^ 64) * 2 ^ 64 + (l + k) mod 2 ^ 64) mod (2 ^ 64 * 2 ^ 64)"
  proof -
    have "((h + (l + k) div 2 ^ 64) * 2 ^ 64) mod (2 ^ 64 * 2 ^ 64) =  ((h + (l + k) div 2 ^ 64) mod 2 ^ 64) * 2 ^ 64"
      by (simp only: mod_mult_mult2)
    moreover have "(h + (l + k) div 2 ^ 64) mod 2 ^ 64 \<le> 2 ^ 64 - 1"
      by simp
    then have "((h + (l + k) div 2 ^ 64) mod 2 ^ 64) * 2 ^ 64 \<le> (2 ^ 64 - 1) * (2 ^ 64 :: nat)"
      by (rule mult_right_mono) simp
    moreover have "(l + k) mod 2 ^ 64 < (2 ^ 64 :: nat)" by simp
    ultimately have "((h + (l + k) div 2 ^ 64) * 2 ^ 64) mod (2 ^ 64 * 2 ^ 64) + (l + k) mod 2 ^ 64 < 2 ^ 64 * 2 ^ 64"
      by simp
    then show ?thesis
      by (metis mod_add_left_eq mod_less)
  qed
  also have "(h + (l + k) div 2 ^ 64) * 2 ^ 64 + (l + k) mod 2 ^ 64 = h * 2 ^ 64 + l + k"
    by (simp add: algebra_simps)
  finally show ?thesis
    by (simp add: uint128_value_def h_def l_def k_def)
qed

lemma umul128_config: "umul128 cfg x y = umul128 cfg' x y"
  by (rule uint128_eqI) (simp_all only: umul128_halves)

lemma umul128_value: "uint128_value (umul128 cfg x y) = unat x * unat y"
  unfolding uint128_value_def umul128_halves by simp

section \<open>Shifts and rounding\<close>

lemma sint_range_64:
  assumes "0 \<le> sint (shift :: i32)" "sint shift \<le> 64" "shift \<noteq> 64"
  shows "sint shift < 64"
proof -
  have "sint shift \<noteq> 64"
  proof
    assume "sint shift = 64"
    then have "word_of_int (sint shift) = (word_of_int 64 :: i32)" by simp
    then show False using assms(3) by simp
  qed
  with assms(2) show ?thesis by simp
qed

lemma sint_pred:
  assumes "0 \<le> sint (shift :: i32)" "shift \<noteq> 0"
  shows "sint (shift - 1) = sint shift - 1"
proof -
  have "sint shift \<noteq> 0" using assms(2) by (simp add: signed_eq_0_iff)
  then have "0 < sint shift" using assms(1) by simp
  have "sint shift < 2 ^ 31" using sint_lt [of shift] by simp
  show ?thesis
    using \<open>0 < sint shift\<close> \<open>sint shift < 2 ^ 31\<close>
    by (simp add: sint_word_ariths signed_take_bit_int_eq_self)
qed

lemma round_down_total:
  assumes "0 \<le> sint shift" "sint shift \<le> 64"
  shows "round_down am shift =
     Some \<lparr>mantissa = (if shift = 64 then 0 else drop_bit (nat (sint shift)) (mantissa am)),
           power2 = power2 am + shift\<rparr>"
  using assms sint_range_64 [of shift]
  by (simp add: round_down_def shr64_def)

lemma round_nearest_tie_even_total:
  assumes "0 \<le> sint shift" "sint shift \<le> 64"
  shows "\<exists>m. round_nearest_tie_even am shift cb = Some \<lparr>mantissa = m, power2 = power2 am + shift\<rparr>"
proof (cases "shift = 64")
  case True
  then show ?thesis
    by (simp add: round_nearest_tie_even_def shl64_def Let_def)
next
  case False
  then have lt: "sint shift < 64" using assms sint_range_64 by blast
  show ?thesis
  proof (cases "shift = 0")
    case True
    then show ?thesis by (simp add: round_nearest_tie_even_def shl64_def shr64_def Let_def)
  next
    case False
    then have "sint (shift - 1) = sint shift - 1" using assms sint_pred by blast
    moreover have "sint shift \<noteq> 0" using False by (simp add: signed_eq_0_iff)
    ultimately show ?thesis
      using lt assms \<open>shift \<noteq> 64\<close> False
      by (simp add: round_nearest_tie_even_def shl64_def shr64_def Let_def)
  qed
qed

lemma round_nearest_tie_even_closed:
  assumes "0 \<le> sint shift" "sint shift \<le> 64"
  shows "round_nearest_tie_even am shift cb =
     Some \<lparr>mantissa = drop_bit (nat (sint shift)) (mantissa am)
              + (if cb (bit (mantissa am) (nat (sint shift)))
                       (take_bit (nat (sint shift)) (mantissa am)
                          = (if shift = 0 then 0 else 2 ^ (nat (sint shift) - 1)))
                       ((if shift = 0 then 0 else 2 ^ (nat (sint shift) - 1))
                          < take_bit (nat (sint shift)) (mantissa am))
                 then 1 else 0),
           power2 = power2 am + shift\<rparr>"
proof -
  define n where "n = nat (sint shift)"
  define m where "m = mantissa am"
  have odd_iff: "(drop_bit n m AND 1 = 1) = bit m n"
    by (simp add: and_one_eq bit_iff_odd_drop_bit mod_2_eq_odd)
  have tb: "m AND (2 ^ k - 1) = take_bit k m" for k
    by (simp add: take_bit_eq_mask mask_eq_exp_minus_1)
  show ?thesis
  proof (cases "shift = 64")
    case True
    then have n64: "n = 64" by (simp add: n_def)
    have nb: "\<not> bit m 64"
      using bit_imp_le_length [of m 64] by auto
    have db: "drop_bit 64 m = 0"
      by (rule bit_word_eqI) (auto simp: bit_drop_bit_eq dest: bit_imp_le_length)
    have tk: "take_bit 64 m = m"
      by (simp add: take_bit_word_eq_self)
    show ?thesis
      using True n64 nb
      by (simp add: round_nearest_tie_even_def shl64_def Let_def n_def [symmetric]
          m_def [symmetric] db tk)
  next
    case False
    then have lt: "sint shift < 64" using assms sint_range_64 by blast
    show ?thesis
    proof (cases "shift = 0")
      case True
      then show ?thesis
        by (simp add: round_nearest_tie_even_def shl64_def shr64_def Let_def and_one_eq mod_2_eq_odd bit_0)
    next
      case False
      then have p: "sint (shift - 1) = sint shift - 1" using assms sint_pred by blast
      have nz: "sint shift \<noteq> 0" using False by (simp add: signed_eq_0_iff)
      have n1: "nat (sint shift - 1) = n - 1" by (simp add: n_def)
      show ?thesis
        using lt assms \<open>shift \<noteq> 64\<close> False nz
        by (simp add: round_nearest_tie_even_def shl64_def shr64_def Let_def p n1
            n_def [symmetric] m_def [symmetric] odd_iff tb push_bit_eq_mult)
    qed
  qed
qed

lemma shl64_in_range:
  assumes "0 \<le> n" "n < 64"
  shows "shl64 x n = Some (x * 2 ^ nat n)"
  using assms by (simp add: shl64_def push_bit_eq_mult)

lemma round_am_normal:
  assumes eb: "0 \<le> mantissa_explicit_bits fmt" "mantissa_explicit_bits fmt < 63"
    and normal: "\<not> (word_of_int (64 - mantissa_explicit_bits fmt - 1) :: i32) \<le>s - power2 am"
  shows "round_am fmt am cb =
     (case cb am (word_of_int (64 - mantissa_explicit_bits fmt - 1)) of
        None \<Rightarrow> None
      | Some am1 \<Rightarrow>
          Some (let e = nat (mantissa_explicit_bits fmt);
                    carried = (2 ^ (e + 1) \<le> unat (mantissa am1));
                    m2 = (if carried then 2 ^ e else mantissa am1);
                    p2 = (if carried then power2 am1 + 1 else power2 am1)
                in if word_of_int (infinite_power fmt) \<le>s p2
                   then \<lparr>mantissa = 0, power2 = word_of_int (infinite_power fmt)\<rparr>
                   else \<lparr>mantissa = unset_bit e m2, power2 = p2\<rparr>))"
proof -
  define e where "e = nat (mantissa_explicit_bits fmt)"
  have e: "e < 63" using eb by (simp add: e_def)
  have s1: "shl64 1 (mantissa_explicit_bits fmt) = Some (2 ^ e)"
    using eb by (simp add: shl64_in_range e_def)
  have s2: "shl64 2 (mantissa_explicit_bits fmt) = Some (2 ^ (e + 1))"
    using eb by (simp add: shl64_in_range e_def)
  have le: "((2 :: u64) ^ Suc e \<le> w) = (2 ^ Suc e \<le> unat w)" for w
  proof -
    have "(2 :: nat) ^ Suc e < 2 ^ 64" using e by (intro power_strict_increasing) simp_all
    then have "unat (word_of_nat (2 ^ Suc e) :: u64) = 2 ^ Suc e"
      by (simp only: unat_of_nat) simp
    then have "unat ((2 :: u64) ^ Suc e) = 2 ^ Suc e"
      by (simp del: power_Suc)
    then show ?thesis by (simp add: word_le_nat_alt del: power_Suc)
  qed
  have ub: "w AND NOT (2 ^ e) = unset_bit e w" for w :: u64
    by (simp add: unset_bit_eq_and_not push_bit_eq_mult)
  show ?thesis
  proof (cases "cb am (word_of_int (64 - mantissa_explicit_bits fmt - 1))")
    case None
    then show ?thesis using normal by (simp add: round_am_def Let_def)
  next
    case (Some am1)
    then show ?thesis
      using normal
      by (cases am1) (simp add: round_am_def Let_def s1 s2 le ub e_def [symmetric] del: power_Suc)
  qed
qed

section \<open>The scaling of the negative-exponent path\<close>

lemma unat_word_of_int_i32:
  assumes "0 \<le> k" "k < 2 ^ 32"
  shows "unat (word_of_int k :: i32) = nat k"
  using assms by (simp add: unsigned_of_int take_bit_int_eq_self)

lemma unat_of_sint_nonneg:
  assumes "0 \<le> sint (w :: i32)"
  shows "unat w = nat (sint w)"
proof -
  have "sint w < 2 ^ 32" using sint_lt [of w] by simp
  then have "unat (word_of_int (sint w) :: i32) = nat (sint w)"
    using assms by (rule unat_word_of_int_i32 [rotated])
  then show ?thesis by simp
qed

lemma sint_neg_i32:
  assumes "- (2 ^ 31) < sint (w :: i32)"
  shows "sint (- w) = - sint w"
  using assms sint_lt [of w]
  by (simp add: sint_word_ariths signed_take_bit_int_eq_self)

lemma unat_neg_nonpos:
  assumes "sint (w :: i32) \<le> 0"
  shows "unat (- w) = nat (- sint w)"
proof -
  have "- w = word_of_int (- sint w)" by simp
  moreover have "- sint w \<le> 2 ^ 31" using sint_ge [of w] by simp
  then have "unat (word_of_int (- sint w) :: i32) = nat (- sint w)"
    using assms by (intro unat_word_of_int_i32) simp_all
  ultimately show ?thesis by simp
qed

lemma sint_diff_i32:
  assumes "- (2 ^ 31) \<le> sint (a :: i32) - sint b" "sint a - sint b < 2 ^ 31"
  shows "sint (a - b) = sint a - sint b"
  using assms by (simp add: sint_word_ariths signed_take_bit_int_eq_self)

lemma asserted_Some: "asserted capacity big = Some r \<Longrightarrow> r = big"
  by (simp add: asserted_def split: if_splits)

lemma scale_digits_unfold:
  "scale_digits True capacity rd re td te =
     (case (if - re \<noteq> 0 then pow5 capacity (unat (- re)) td else Some td) of
        None \<Rightarrow> None
      | Some t1 \<Rightarrow>
          if 0 <s te - re
          then (case pow2 capacity (unat (te - re)) t1 of
                  None \<Rightarrow> None | Some t2 \<Rightarrow> Some (rd, t2))
          else if te - re <s 0
          then (case pow2 capacity (unat (- (te - re))) rd of
                  None \<Rightarrow> None | Some r1 \<Rightarrow> Some (r1, t1))
          else Some (rd, t1))"
  by (simp add: scale_digits_def charconv_assert_def Let_def split: option.splits)

lemma pow5_Some: "pow5 capacity n big = Some r \<Longrightarrow> r = big * 5 ^ n"
  by (simp add: pow5_def asserted_Some)

lemma pow2_Some: "pow2 capacity n big = Some r \<Longrightarrow> r = big * 2 ^ n"
  by (simp add: pow2_def asserted_Some)

lemma scale_digits_result:
  assumes e: "sint real_exp \<le> 0"
    and range: "- (2 ^ 31) < sint theor_exp - sint real_exp" "sint theor_exp - sint real_exp < 2 ^ 31"
    and res: "scale_digits True capacity real_digits real_exp theor_digits theor_exp = Some (r, t)"
  shows "r = real_digits * 2 ^ nat (sint real_exp - sint theor_exp)"
    and "t = theor_digits * 5 ^ nat (- sint real_exp) * 2 ^ nat (sint theor_exp - sint real_exp)"
proof -
  define d where "d = sint theor_exp - sint real_exp"
  define t0 where "t0 = theor_digits * 5 ^ nat (- sint real_exp)"
  have sd: "sint (theor_exp - real_exp) = d"
    unfolding d_def using range by (intro sint_diff_i32) simp_all
  have p5: "unat (- real_exp) = nat (- sint real_exp)"
    by (rule unat_neg_nonpos [OF e])
  have z5: "(real_exp = 0) = (sint real_exp = 0)"
    by (simp add: signed_eq_0_iff)
  from res obtain t1 where
    step1: "(if - real_exp \<noteq> 0 then pow5 capacity (unat (- real_exp)) theor_digits
             else Some theor_digits) = Some t1"
    and step2: "(if 0 <s theor_exp - real_exp
          then (case pow2 capacity (unat (theor_exp - real_exp)) t1 of
                  None \<Rightarrow> None | Some t2 \<Rightarrow> Some (real_digits, t2))
          else if theor_exp - real_exp <s 0
          then (case pow2 capacity (unat (- (theor_exp - real_exp))) real_digits of
                  None \<Rightarrow> None | Some r1 \<Rightarrow> Some (r1, t1))
          else Some (real_digits, t1)) = Some (r, t)"
    unfolding scale_digits_unfold by (auto split: option.splits)
  have t1: "t1 = t0"
  proof (cases "sint real_exp = 0")
    case True
    then show ?thesis using step1 by (simp add: z5 t0_def)
  next
    case False
    then show ?thesis using step1 pow5_Some by (simp add: z5 p5 t0_def)
  qed
  consider (pos) "0 < d" | (neg) "d < 0" | (zero) "d = 0" by linarith
  then have "r = real_digits * 2 ^ nat (- d) \<and> t = t0 * 2 ^ nat d"
  proof cases
    case pos
    then have u: "unat (theor_exp - real_exp) = nat d"
      using unat_of_sint_nonneg [of "theor_exp - real_exp"] sd by simp
    have "0 <s theor_exp - real_exp" using pos sd by (simp add: word_sless_alt)
    then show ?thesis
      using step2 pos by (auto simp: u t1 split: option.splits dest: pow2_Some)
  next
    case neg
    have "sint (- (theor_exp - real_exp)) = - d"
      using sint_neg_i32 [of "theor_exp - real_exp"] sd range by (simp add: d_def)
    then have "unat (- (theor_exp - real_exp)) = nat (- d)"
      using unat_of_sint_nonneg [of "- (theor_exp - real_exp)"] neg by simp
    then have u: "unat (real_exp - theor_exp) = nat (- d)"
      by simp
    have "\<not> 0 <s theor_exp - real_exp" "theor_exp - real_exp <s 0"
      using neg sd by (simp_all add: word_sless_alt)
    then show ?thesis
      using step2 neg by (auto simp: u t1 split: option.splits dest: pow2_Some)
  next
    case zero
    have "\<not> 0 <s theor_exp - real_exp" "\<not> theor_exp - real_exp <s 0"
      using zero sd by (simp_all add: word_sless_alt)
    then show ?thesis
      using step2 zero by (simp add: t1)
  qed
  then show "r = real_digits * 2 ^ nat (sint real_exp - sint theor_exp)"
    and "t = theor_digits * 5 ^ nat (- sint real_exp) * 2 ^ nat (sint theor_exp - sint real_exp)"
    by (simp_all add: t0_def d_def)
qed

lemma negative_decide_eq:
  "negative_decide ord is_odd is_halfway is_above = (0 < ord \<or> (ord = 0 \<and> is_odd))"
  by (auto simp: negative_decide_def)


lemma pow_nat_powi: "0 \<le> k \<Longrightarrow> (x :: real) ^ nat k = x powi k"
  by (simp add: power_int_def)

lemma same_magnitude:
  fixes e f :: int and rd td :: nat
  assumes "e \<le> 0"
  shows "real (rd * 2 ^ nat (e - f)) * 2 powi (min e f) * 5 powi e = real rd * 10 powi e"
    and "real (td * 5 ^ nat (- e) * 2 ^ nat (f - e)) * 2 powi (min e f) * 5 powi e
          = real td * 2 powi f"
proof -
  have ten: "(10 :: real) powi e = 2 powi e * 5 powi e"
    using power_int_mult_distrib [of "2 :: real" 5 e] by simp
  have five: "(5 :: real) ^ nat (- e) * 5 powi e = 1"
    using assms by (simp add: pow_nat_powi power_int_add [symmetric])
  show "real (rd * 2 ^ nat (e - f)) * 2 powi (min e f) * 5 powi e = real rd * 10 powi e"
  proof (cases "f \<le> e")
    case True
    then have "(2 :: real) ^ nat (e - f) * 2 powi (min e f) = 2 powi e"
      by (simp add: pow_nat_powi power_int_add [symmetric] min_def)
    then show ?thesis by (simp add: ten mult.assoc)
  next
    case False
    then show ?thesis by (simp add: ten min_def)
  qed
  show "real (td * 5 ^ nat (- e) * 2 ^ nat (f - e)) * 2 powi (min e f) * 5 powi e
          = real td * 2 powi f"
  proof (cases "f \<le> e")
    case True
    then have "real (td * 5 ^ nat (- e) * 2 ^ nat (f - e)) * 2 powi (min e f) * 5 powi e
        = real td * 2 powi f * (5 ^ nat (- e) * 5 powi e)"
      by (simp add: min_def)
    then show ?thesis by (simp only: five mult_1_right)
  next
    case False
    then have "(2 :: real) ^ nat (f - e) * 2 powi (min e f) = 2 powi f"
      by (simp add: pow_nat_powi power_int_add [symmetric] min_def)
    then have "real (td * 5 ^ nat (- e) * 2 ^ nat (f - e)) * 2 powi (min e f) * 5 powi e
        = real td * 2 powi f * (5 ^ nat (- e) * 5 powi e)"
      by (simp add: mult.assoc mult.left_commute)
    then show ?thesis by (simp only: five mult_1_right)
  qed
qed

text \<open>
  The two builds. Where the assertion macro expands to nothing no scaling call is made;
  where it evaluates its argument the scaling returns whenever the results fit the
  capacity, and the comparison of the scaled integers is the comparison of the decimal
  value with the halfway point.
\<close>

lemma scale_digits_unchecked:
  "scale_digits False capacity real_digits real_exp theor_digits theor_exp
     = Some (real_digits, theor_digits)"
  by (simp add: scale_digits_def charconv_assert_def Let_def)

lemma scale_digits_returns:
  assumes e: "sint real_exp \<le> 0"
    and range: "- (2 ^ 31) < sint theor_exp - sint real_exp" "sint theor_exp - sint real_exp < 2 ^ 31"
    and fits: "real_digits * 2 ^ nat (sint real_exp - sint theor_exp) < 2 ^ capacity"
      "theor_digits * 5 ^ nat (- sint real_exp) * 2 ^ nat (sint theor_exp - sint real_exp) < 2 ^ capacity"
  shows "scale_digits True capacity real_digits real_exp theor_digits theor_exp =
     Some (real_digits * 2 ^ nat (sint real_exp - sint theor_exp),
           theor_digits * 5 ^ nat (- sint real_exp) * 2 ^ nat (sint theor_exp - sint real_exp))"
proof -
  define d where "d = sint theor_exp - sint real_exp"
  define t0 where "t0 = theor_digits * 5 ^ nat (- sint real_exp)"
  have sd: "sint (theor_exp - real_exp) = d"
    unfolding d_def using range by (intro sint_diff_i32) simp_all
  have p5: "unat (- real_exp) = nat (- sint real_exp)"
    by (rule unat_neg_nonpos [OF e])
  have z5: "(real_exp = 0) = (sint real_exp = 0)"
    by (simp add: signed_eq_0_iff)
  have "t0 \<le> t0 * 2 ^ nat d" by simp
  then have t0: "t0 < 2 ^ capacity"
    using fits(2) unfolding t0_def d_def by (rule le_less_trans)
  have step1: "(if - real_exp \<noteq> 0 then pow5 capacity (unat (- real_exp)) theor_digits
             else Some theor_digits) = Some t0"
    using t0 by (simp add: z5 p5 pow5_def asserted_def t0_def)
  consider (pos) "0 < d" | (neg) "d < 0" | (zero) "d = 0" by linarith
  then have "scale_digits True capacity real_digits real_exp theor_digits theor_exp =
     Some (real_digits * 2 ^ nat (- d), t0 * 2 ^ nat d)"
  proof cases
    case pos
    then have u: "unat (theor_exp - real_exp) = nat d"
      using unat_of_sint_nonneg [of "theor_exp - real_exp"] sd by simp
    have "0 <s theor_exp - real_exp" using pos sd by (simp add: word_sless_alt)
    then show ?thesis
      unfolding scale_digits_unfold step1 using pos fits(2)
      by (simp add: u pow2_def asserted_def t0_def d_def)
  next
    case neg
    have "sint (- (theor_exp - real_exp)) = - d"
      using sint_neg_i32 [of "theor_exp - real_exp"] sd range by (simp add: d_def)
    then have u: "unat (- (theor_exp - real_exp)) = nat (- d)"
      using unat_of_sint_nonneg [of "- (theor_exp - real_exp)"] neg by simp
    have c: "\<not> 0 <s theor_exp - real_exp" "theor_exp - real_exp <s 0"
      using neg sd by (simp_all add: word_sless_alt)
    have f: "real_digits * 2 ^ nat (- d) < 2 ^ capacity"
      using fits(1) by (simp add: d_def)
    show ?thesis
      unfolding scale_digits_unfold step1 using neg f
      by (simp only: c u if_True if_False option.case pow2_def asserted_def) simp
  next
    case zero
    have "\<not> 0 <s theor_exp - real_exp" "\<not> theor_exp - real_exp <s 0"
      using zero sd by (simp_all add: word_sless_alt)
    then show ?thesis
      unfolding scale_digits_unfold step1 using zero by simp
  qed
  then show ?thesis by (simp add: t0_def d_def)
qed

lemma compare_scaled:
  fixes r t :: nat and u x y :: real
  assumes "0 < u" "real r * u = x" "real t * u = y"
  shows "compare r t = (if y < x then 1 else if x < y then - 1 else 0)"
proof -
  have "(t < r) = (y < x)" "(r < t) = (x < y)"
    using assms by (auto simp: mult_less_cancel_right)
  then show ?thesis by (simp add: compare_def)
qed

lemma negative_compare_checked:
  assumes run: "negative_compare fmt to_float True capacity bigmant am exponent = Some ord"
    and b: "round_am fmt am (\<lambda>a shift. round_down a shift) = Some am_b"
    and h: "to_extended_halfway fmt (to_float False am_b) = Some theor"
    and e: "sint exponent \<le> 0"
    and range: "- (2 ^ 31) < sint (power2 theor) - sint exponent"
      "sint (power2 theor) - sint exponent < 2 ^ 31"
  shows "ord = (if real (unat (mantissa theor)) * 2 powi sint (power2 theor)
                     < real bigmant * 10 powi sint exponent then 1
                else if real bigmant * 10 powi sint exponent
                     < real (unat (mantissa theor)) * 2 powi sint (power2 theor) then - 1
                else 0)"
proof -
  from run obtain r t where
    sc: "scale_digits True capacity bigmant exponent (unat (mantissa theor)) (power2 theor) = Some (r, t)"
    and ord: "ord = compare r t"
    by (auto simp: negative_compare_def b h split: bind_splits)
  define u :: real where "u = 2 powi (min (sint exponent) (sint (power2 theor))) * 5 powi (sint exponent)"
  have u: "0 < u" by (simp add: u_def)
  have r: "r = bigmant * 2 ^ nat (sint exponent - sint (power2 theor))"
    and t: "t = unat (mantissa theor) * 5 ^ nat (- sint exponent)
               * 2 ^ nat (sint (power2 theor) - sint exponent)"
    using e range sc by (rule scale_digits_result)+
  have "real r * u = real bigmant * 10 powi sint exponent"
    unfolding r u_def using same_magnitude(1) [OF e, of bigmant "sint (power2 theor)"]
    by (simp add: mult.assoc)
  moreover have "real t * u = real (unat (mantissa theor)) * 2 powi sint (power2 theor)"
    unfolding t u_def using same_magnitude(2) [OF e, of "unat (mantissa theor)" "sint (power2 theor)"]
    by (simp add: mult.assoc)
  ultimately show ?thesis
    unfolding ord using u by (intro compare_scaled)
qed

section \<open>The decimal position of the leading digit\<close>

lemma decimal_digits_small: "n < 10 \<Longrightarrow> decimal_digits n = 1"
  by (simp add: decimal_digits.simps)

lemma decimal_digits_div10: "10 \<le> n \<Longrightarrow> decimal_digits (n div 10) = decimal_digits n - 1"
  by (subst (2) decimal_digits.simps) simp

lemma decimal_digits_pos: "0 < decimal_digits n"
  by (subst decimal_digits.simps) simp

lemma decimal_digits_div_power:
  "10 ^ k \<le> n \<Longrightarrow> decimal_digits (n div 10 ^ k) + k = decimal_digits n"
proof (induction k arbitrary: n)
  case 0
  then show ?case by simp
next
  case (Suc k)
  then have n10: "10 \<le> n"
    by (metis (no_types) le_trans power_one_right power_increasing le_add1 plus_1_eq_Suc one_le_numeral)
  have "10 ^ k \<le> n div 10"
    using Suc.prems by (simp add: less_eq_div_iff_mult_less_eq mult.commute)
  then have "decimal_digits (n div 10 div 10 ^ k) + k = decimal_digits (n div 10)"
    by (rule Suc.IH)
  moreover have "n div 10 div 10 ^ k = n div 10 ^ Suc k"
    by (simp add: div_mult2_eq)
  ultimately show ?case
    using decimal_digits_div10 [OF n10] decimal_digits_pos [of "n div 10"] by simp
qed

lemma exponent_invariant:
  fixes m :: u64 and e :: i32
  assumes "10 ^ k \<le> unat m" "unat d = 10 ^ k"
  shows "e + word_of_nat k + word_of_nat (decimal_digits (unat (m div d)) - 1)
       = e + word_of_nat (decimal_digits (unat m) - 1)"
proof -
  have "unat (m div d) = unat m div 10 ^ k"
    by (simp add: unat_div assms(2))
  then have "decimal_digits (unat (m div d)) + k = decimal_digits (unat m)"
    using decimal_digits_div_power [OF assms(1)] by simp
  then have "k + (decimal_digits (unat (m div d)) - 1) = decimal_digits (unat m) - 1"
    using decimal_digits_pos [of "unat (m div d)"] by simp
  then have "(word_of_nat (k + (decimal_digits (unat (m div d)) - 1)) :: i32)
      = word_of_nat (decimal_digits (unat m) - 1)"
    by simp
  then show ?thesis
    by (simp only: of_nat_add add.assoc)
qed

lemma exponent_step_invariant:
  assumes "exponent_step s s'"
  shows "snd s' + word_of_nat (decimal_digits (unat (fst s')) - 1)
       = snd s + word_of_nat (decimal_digits (unat (fst s)) - 1)"
  using assms
proof cases
  case (step_10000 m e)
  then show ?thesis
    using exponent_invariant [of 4 m 10000 e] by (simp add: word_le_nat_alt)
next
  case (step_100 m e)
  then show ?thesis
    using exponent_invariant [of 2 m 100 e] by (simp add: word_le_nat_alt)
next
  case (step_10 m e)
  then show ?thesis
    using exponent_invariant [of 1 m 10 e] by (simp add: word_le_nat_alt)
qed

lemma exponent_steps_invariant:
  assumes "exponent_step\<^sup>*\<^sup>* s s'"
  shows "snd s' + word_of_nat (decimal_digits (unat (fst s')) - 1)
       = snd s + word_of_nat (decimal_digits (unat (fst s)) - 1)"
  using assms
proof (induction rule: rtranclp_induct)
  case base
  show ?case ..
next
  case (step y z)
  show ?case
    using exponent_step_invariant [OF step.hyps(2)] step.IH by (rule trans)
qed

lemma loop_10000_steps: "exponent_step\<^sup>*\<^sup>* (m, e) (loop_10000 m e)"
proof (induction m e rule: loop_10000.induct)
  case (1 m e)
  show ?case
  proof (cases "10000 \<le> m")
    case True
    have "exponent_step (m, e) (m div 10000, e + 4)"
      using True by (rule step_10000)
    then show ?thesis
      using "1.IH" [OF True] True by (subst loop_10000.simps) (simp add: converse_rtranclp_into_rtranclp)
  next
    case False
    then show ?thesis by (subst loop_10000.simps) simp
  qed
qed

lemma loop_100_steps: "exponent_step\<^sup>*\<^sup>* (m, e) (loop_100 m e)"
proof (induction m e rule: loop_100.induct)
  case (1 m e)
  show ?case
  proof (cases "100 \<le> m")
    case True
    have "exponent_step (m, e) (m div 100, e + 2)"
      using True by (rule step_100)
    then show ?thesis
      using "1.IH" [OF True] True by (subst loop_100.simps) (simp add: converse_rtranclp_into_rtranclp)
  next
    case False
    then show ?thesis by (subst loop_100.simps) simp
  qed
qed

lemma loop_10_steps: "exponent_step\<^sup>*\<^sup>* (m, e) (loop_10 m e)"
proof (induction m e rule: loop_10.induct)
  case (1 m e)
  show ?case
  proof (cases "10 \<le> m")
    case True
    have "exponent_step (m, e) (m div 10, e + 1)"
      using True by (rule step_10)
    then show ?thesis
      using "1.IH" [OF True] True by (subst loop_10.simps) (simp add: converse_rtranclp_into_rtranclp)
  next
    case False
    then show ?thesis by (subst loop_10.simps) simp
  qed
qed

lemma loop_10_final: "fst (loop_10 m e) < 10"
proof (induction m e rule: loop_10.induct)
  case (1 m e)
  then show ?case
    by (subst loop_10.simps) (simp add: not_le)
qed

lemma scientific_exponent_run:
  "\<exists>m'. m' < 10 \<and> exponent_step\<^sup>*\<^sup>* (num_mantissa num, num_exponent num) (m', scientific_exponent num)"
proof -
  obtain m1 e1 where l1: "loop_10000 (num_mantissa num) (num_exponent num) = (m1, e1)"
    by (cases "loop_10000 (num_mantissa num) (num_exponent num)")
  obtain m2 e2 where l2: "loop_100 m1 e1 = (m2, e2)"
    by (cases "loop_100 m1 e1")
  obtain m3 e3 where l3: "loop_10 m2 e2 = (m3, e3)"
    by (cases "loop_10 m2 e2")
  have "exponent_step\<^sup>*\<^sup>* (num_mantissa num, num_exponent num) (m1, e1)"
    using loop_10000_steps [of "num_mantissa num" "num_exponent num"] l1 by simp
  also have "exponent_step\<^sup>*\<^sup>* (m1, e1) (m2, e2)"
    using loop_100_steps [of m1 e1] l2 by simp
  also have "exponent_step\<^sup>*\<^sup>* (m2, e2) (m3, e3)"
    using loop_10_steps [of m2 e2] l3 by simp
  finally have "exponent_step\<^sup>*\<^sup>* (num_mantissa num, num_exponent num) (m3, e3)" .
  moreover have "m3 < 10"
    using loop_10_final [of m2 e2] l3 by simp
  moreover have "scientific_exponent num = e3"
    by (simp add: scientific_exponent_def l1 l2 l3)
  ultimately show ?thesis by blast
qed

lemma final_position:
  assumes "exponent_step\<^sup>*\<^sup>* (m, e) (m', e')" "m' < 10"
  shows "e' = e + word_of_nat (decimal_digits (unat m) - 1)"
proof -
  have "unat m' < 10" using assms(2) by (simp add: word_less_nat_alt)
  then have "decimal_digits (unat m') = 1" by (rule decimal_digits_small)
  then show ?thesis
    using exponent_steps_invariant [OF assms(1)] by simp
qed

lemma decimal_digits_le: "0 < k \<Longrightarrow> n < 10 ^ k \<Longrightarrow> decimal_digits n \<le> k"
proof (induction k arbitrary: n)
  case 0
  then show ?case by simp
next
  case (Suc k)
  show ?case
  proof (cases "n < 10")
    case True
    then show ?thesis by (simp add: decimal_digits_small)
  next
    case False
    then have k: "0 < k" using Suc.prems by (cases k) simp_all
    have "n div 10 < 10 ^ k" using Suc.prems by (simp add: less_mult_imp_div_less mult.commute)
    then have "decimal_digits (n div 10) \<le> k" using Suc.IH k by blast
    then show ?thesis using False by (subst decimal_digits.simps) simp
  qed
qed

lemma decimal_digits_u64: "decimal_digits (unat (m :: u64)) \<le> 20"
proof -
  have "unat m < 10 ^ 20" using unat_u64_lt [of m] by simp
  then show ?thesis by (intro decimal_digits_le) simp_all
qed

lemma sint_add_small:
  fixes e :: i32
  assumes "k \<le> 19" "sint e + int k < 2 ^ 31"
  shows "sint (e + word_of_nat k) = sint e + int k"
proof -
  have "sint (word_of_nat k :: i32) = int k"
    using assms(1) by (simp add: signed_of_nat signed_take_bit_int_eq_self)
  moreover have "- (2 ^ 31) \<le> sint e" using sint_ge [of e] by simp
  ultimately show ?thesis
    using assms(2) by (simp add: sint_word_ariths signed_take_bit_int_eq_self)
qed

section \<open>The digit accumulator\<close>

lemma is_truncated_chars_iff: "is_truncated_chars p = (\<exists>c\<in>set p. c \<noteq> CHR ''0'')"
  by (induction p) auto

lemma int_cmp_len_pos: "0 < int_cmp_len u"
  by (cases u) simp_all

lemma take_zeros_iff:
  assumes "n \<le> length p"
  shows "(take n p = replicate n (CHR ''0'')) = (\<forall>c\<in>set (take n p). c = CHR ''0'')"
proof -
  have "length (take n p) = n" using assms by simp
  then show ?thesis
    by (metis replicate_eqI replicate_length_same set_replicate_conv_if singletonD empty_iff)
qed

lemma is_truncated_iff: "is_truncated cfg p = (\<exists>c\<in>set p. c \<noteq> CHR ''0'')"
proof (induction cfg p rule: is_truncated.induct)
  case (1 cfg p)
  define n where "n = int_cmp_len (uc cfg)"
  show ?case
  proof (cases "\<not> constant_evaluated cfg \<and> n \<le> length p")
    case False
    then show ?thesis
      by (subst is_truncated.simps) (auto simp: n_def is_truncated_chars_iff)
  next
    case True
    then have len: "n \<le> length p" by simp
    have split: "set p = set (take n p) \<union> set (drop n p)"
      by (metis append_take_drop_id set_append)
    show ?thesis
    proof (cases "take n p = int_cmp_zeros (uc cfg)")
      case zeros: True
      then have "\<forall>c\<in>set (take n p). c = CHR ''0''"
        using take_zeros_iff [OF len] by (simp add: int_cmp_zeros_def n_def)
      moreover have "is_truncated cfg (drop n p) = (\<exists>c\<in>set (drop n p). c \<noteq> CHR ''0'')"
        using "1.IH" True zeros by (simp add: n_def)
      ultimately show ?thesis
        using True zeros split by (subst is_truncated.simps) (auto simp: n_def)
    next
      case nz: False
      then have "\<exists>c\<in>set (take n p). c \<noteq> CHR ''0''"
        using take_zeros_iff [OF len] by (simp add: int_cmp_zeros_def n_def)
      then show ?thesis
        using True nz split by (subst is_truncated.simps) (auto simp: n_def)
    qed
  qed
qed

lemma skip_zeros_chars_eq: "skip_zeros_chars p = dropWhile (\<lambda>c. c = CHR ''0'') p"
  by (induction p) auto

lemma skip_zeros_eq: "skip_zeros cfg p = dropWhile (\<lambda>c. c = CHR ''0'') p"
  unfolding skip_zeros_def
proof (induction cfg p rule: skip_zeros_words.induct)
  case (1 cfg p)
  define n where "n = int_cmp_len (uc cfg)"
  show ?case
  proof (cases "\<not> constant_evaluated cfg \<and> n \<le> length p \<and> take n p = int_cmp_zeros (uc cfg)")
    case False
    then show ?thesis
      by (subst skip_zeros_words.simps) (auto simp: n_def skip_zeros_chars_eq)
  next
    case True
    then have len: "n \<le> length p" by simp
    have zeros: "\<forall>c\<in>set (take n p). c = CHR ''0''"
      using take_zeros_iff [OF len] True by (simp add: int_cmp_zeros_def n_def)
    have "dropWhile (\<lambda>c. c = CHR ''0'') p
        = dropWhile (\<lambda>c. c = CHR ''0'') (take n p @ drop n p)"
      by simp
    also have "\<dots> = dropWhile (\<lambda>c. c = CHR ''0'') (drop n p)"
      using zeros by (simp only: dropWhile_append2)
    finally have "dropWhile (\<lambda>c. c = CHR ''0'') p = dropWhile (\<lambda>c. c = CHR ''0'') (drop n p)" .
    moreover have "skip_zeros_chars (skip_zeros_words cfg (drop n p))
        = dropWhile (\<lambda>c. c = CHR ''0'') (drop n p)"
      using "1.IH" True by (simp add: n_def)
    ultimately show ?thesis
      using True by (subst skip_zeros_words.simps) (simp add: n_def)
  qed
qed

lemma foldl_digits:
  "foldl (\<lambda>a c. a * 10 + (of_char c - 48)) v ds
     = v * 10 ^ length ds + foldl (\<lambda>a c. a * 10 + (of_char c - 48)) (0 :: nat) ds"
proof (induction ds arbitrary: v)
  case Nil
  show ?case by simp
next
  case (Cons c ds)
  show ?case
    by (simp add: Cons.IH [of "v * 10 + (of_char c - 48)"] Cons.IH [of "of_char c - 48"]
        algebra_simps)
qed

lemma digits_value_Nil: "digits_value [] = 0"
  by (simp add: digits_value_def)

lemma digits_value_append:
  "digits_value (xs @ ys) = digits_value xs * 10 ^ length ys + digits_value ys"
  unfolding digits_value_def by (simp add: foldl_digits [of "foldl _ _ xs"])

lemma digits_value_Cons:
  "digits_value (c # ds) = (of_char c - 48) * 10 ^ length ds + digits_value ds"
  using digits_value_append [of "[c]" ds] by (simp add: digits_value_def)

lemma digits_value_lt: "list_all is_digit ds \<Longrightarrow> digits_value ds < 10 ^ length ds"
proof (induction ds)
  case Nil
  show ?case by (simp add: digits_value_Nil)
next
  case (Cons c ds)
  then have "(of_char c :: nat) - 48 \<le> 9" and "digits_value ds < 10 ^ length ds"
    by (auto simp: is_digit_def)
  then have "((of_char c :: nat) - 48) * 10 ^ length ds + digits_value ds
      < 9 * 10 ^ length ds + 10 ^ length ds"
    by (intro add_le_less_mono mult_right_mono) simp_all
  then show ?case by (simp add: digits_value_Cons)
qed

lemma step_limb: "10 ^ step cfg < (2 :: nat) ^ limb_bits cfg"
  by (simp add: step_def limb_bits_def)

lemma to_limb_small: "n < 10 ^ k \<Longrightarrow> k \<le> step cfg \<Longrightarrow> to_limb cfg n = n"
proof -
  assume "n < 10 ^ k" "k \<le> step cfg"
  then have "n < 10 ^ step cfg"
    by (meson less_le_trans power_increasing one_le_numeral)
  then show ?thesis
    using step_limb [of cfg] by (simp add: to_limb_def)
qed

lemma digit_limb_digit: "is_digit c \<Longrightarrow> digit_limb cfg c = of_char c - 48"
proof -
  assume d: "is_digit c"
  have "(16 :: int) \<le> 2 ^ limb_bits cfg" by (simp add: limb_bits_def)
  moreover have "0 \<le> int (of_char c :: nat) - 48" "int (of_char c :: nat) - 48 \<le> 9"
    using d by (simp_all add: is_digit_def)
  ultimately have "(int (of_char c :: nat) - 48) mod 2 ^ limb_bits cfg = int (of_char c :: nat) - 48"
    by simp
  then show ?thesis by (simp add: digit_limb_def)
qed

lemma size_sub_le: "b \<le> a \<Longrightarrow> a < 2 ^ 64 \<Longrightarrow> size_sub a b = a - b"
  by (simp add: size_sub_def nat_diff_distrib' flip: of_nat_diff)

lemma step_lt: "step cfg < 2 ^ 64"
  by (simp add: step_def)

lemma shift_value:
  assumes "val < 10 ^ counter" "list_all is_digit ds"
  shows "val * 10 ^ length ds + digits_value ds < 10 ^ (counter + length ds)"
proof -
  have "val + 1 \<le> 10 ^ counter" using assms(1) by simp
  then have "(val + 1) * 10 ^ length ds \<le> 10 ^ counter * 10 ^ length ds"
    by (rule mult_right_mono) simp
  moreover have "digits_value ds < 10 ^ length ds"
    using assms(2) by (rule digits_value_lt)
  ultimately show ?thesis
    by (simp add: power_add algebra_simps)
qed

lemma eight_digits_loop_result:
  assumes "list_all is_digit p" "val < 10 ^ counter" "counter \<le> step cfg"
    "digits \<le> max_count" "max_count < 2 ^ 64"
  shows "\<exists>k. eight_digits_loop cfg max_count p val counter digits
          = (drop k p, val * 10 ^ k + digits_value (take k p), counter + k, digits + k)
        \<and> k \<le> length p \<and> counter + k \<le> step cfg \<and> digits + k \<le> max_count"
  using assms
proof (induction cfg max_count p val counter digits rule: eight_digits_loop.induct)
  case (1 cfg max_count p val counter digits)
  show ?case
  proof (cases "8 \<le> length p \<and> 8 \<le> size_sub (step cfg) counter \<and> 8 \<le> size_sub max_count digits")
    case False
    then have "eight_digits_loop cfg max_count p val counter digits = (p, val, counter, digits)"
      by (subst eight_digits_loop.simps) auto
    then show ?thesis
      using "1.prems" by (intro exI [of _ 0]) (simp add: digits_value_Nil)
  next
    case True
    then have len: "8 \<le> length p" and c8: "counter + 8 \<le> step cfg"
      and d8: "digits + 8 \<le> max_count"
      using "1.prems" step_lt [of cfg] by (auto simp: size_sub_le)
    define val1 where "val1 = val * 10 ^ 8 + digits_value (take 8 p)"
    have t8: "list_all is_digit (take 8 p)" "list_all is_digit (drop 8 p)"
      using "1.prems"(1) by (auto simp: list_all_iff dest: in_set_takeD in_set_dropD)
    have "val1 < 10 ^ (counter + length (take 8 p))"
      unfolding val1_def using shift_value [OF "1.prems"(2) t8(1)] len by simp
    then have v1: "val1 < 10 ^ (counter + 8)"
      using len by simp
    then have lim: "to_limb cfg val1 = val1"
      using c8 by (rule to_limb_small)
    have "parse_eight_digits_unrolled p = digits_value (take 8 p)"
      by (simp only: parse_eight_digits_unrolled_def digits_value_def)
    then have "to_limb cfg (val * 100000000 + parse_eight_digits_unrolled p) = val1"
      using lim by (simp add: val1_def)
    then have pe: "parse_eight_digits cfg p val counter digits
        = (drop 8 p, val1, counter + 8, digits + 8)"
      by (simp only: parse_eight_digits_def)
    obtain k where k: "eight_digits_loop cfg max_count (drop 8 p) val1 (counter + 8) (digits + 8)
          = (drop k (drop 8 p), val1 * 10 ^ k + digits_value (take k (drop 8 p)),
             counter + 8 + k, digits + 8 + k)"
      and kb: "k \<le> length (drop 8 p)" "counter + 8 + k \<le> step cfg" "digits + 8 + k \<le> max_count"
      using "1.IH" [OF True pe [symmetric] refl refl t8(2) v1 c8 d8 "1.prems"(5)] by blast
    have tk: "take (8 + k) p = take 8 p @ take k (drop 8 p)"
      by (simp add: take_add)
    have lk: "length (take k (drop 8 p)) = k"
      using kb(1) by simp
    have "digits_value (take (8 + k) p)
        = digits_value (take 8 p) * 10 ^ k + digits_value (take k (drop 8 p))"
      by (simp only: tk digits_value_append lk)
    then have val: "val1 * 10 ^ k + digits_value (take k (drop 8 p))
        = val * 10 ^ (8 + k) + digits_value (take (8 + k) p)"
      by (simp add: val1_def power_add add_mult_distrib)
    have "eight_digits_loop cfg max_count p val counter digits
        = eight_digits_loop cfg max_count (drop 8 p) val1 (counter + 8) (digits + 8)"
      using True by (subst eight_digits_loop.simps) (simp add: pe)
    also have "\<dots> = (drop k (drop 8 p), val1 * 10 ^ k + digits_value (take k (drop 8 p)),
             counter + 8 + k, digits + 8 + k)"
      by (rule k)
    also have "\<dots> = (drop (8 + k) p, val * 10 ^ (8 + k) + digits_value (take (8 + k) p),
           counter + (8 + k), digits + (8 + k))"
      by (simp only: val drop_drop add.commute [of k 8] add.assoc)
    finally have "eight_digits_loop cfg max_count p val counter digits
        = (drop (8 + k) p, val * 10 ^ (8 + k) + digits_value (take (8 + k) p),
           counter + (8 + k), digits + (8 + k))" .
    moreover have "8 + k \<le> length p" using kb(1) len by simp
    ultimately show ?thesis
      using kb by (intro exI [of _ "8 + k"]) (simp add: add.assoc)
  qed
qed

lemma one_digit_loop_result:
  assumes "list_all is_digit p" "val < 10 ^ counter" "counter \<le> step cfg"
    "digits \<le> max_count"
  shows "\<exists>k. one_digit_loop cfg max_count p val counter digits
          = (drop k p, val * 10 ^ k + digits_value (take k p), counter + k, digits + k)
        \<and> k \<le> length p \<and> counter + k \<le> step cfg \<and> digits + k \<le> max_count
        \<and> (k = length p \<or> counter + k = step cfg \<or> digits + k = max_count)"
  using assms
proof (induction p arbitrary: val counter digits)
  case Nil
  then show ?case by (intro exI [of _ 0]) (simp add: digits_value_Nil)
next
  case (Cons c p)
  show ?case
  proof (cases "counter < step cfg \<and> digits < max_count")
    case False
    then have "one_digit_loop cfg max_count (c # p) val counter digits
        = (c # p, val, counter, digits)"
      by auto
    moreover have "counter = step cfg \<or> digits = max_count"
      using False Cons.prems by auto
    ultimately show ?thesis
      using Cons.prems by (intro exI [of _ 0]) (auto simp: digits_value_Nil)
  next
    case True
    have dc: "is_digit c" and dp: "list_all is_digit p"
      using Cons.prems(1) by simp_all
    define val1 where "val1 = val * 10 + (of_char c - 48)"
    have "val * 10 ^ length [c] + digits_value [c] < 10 ^ (counter + length [c])"
      using Cons.prems(2) dc by (intro shift_value) simp_all
    then have v1: "val1 < 10 ^ (counter + 1)"
      by (simp add: val1_def digits_value_def)
    then have lim: "to_limb cfg val1 = val1"
      using True by (intro to_limb_small [of _ "counter + 1"]) simp_all
    have po: "parse_one_digit cfg c p val counter digits = (p, val1, counter + 1, digits + 1)"
      using lim by (simp add: parse_one_digit_def digit_limb_digit [OF dc] val1_def)
    obtain k where k: "one_digit_loop cfg max_count p val1 (counter + 1) (digits + 1)
          = (drop k p, val1 * 10 ^ k + digits_value (take k p), counter + 1 + k, digits + 1 + k)"
      and kb: "k \<le> length p" "counter + 1 + k \<le> step cfg" "digits + 1 + k \<le> max_count"
        "k = length p \<or> counter + 1 + k = step cfg \<or> digits + 1 + k = max_count"
      using Cons.IH [OF dp v1, of "digits + 1"] True by auto
    have lk: "length (take k p) = k"
      using kb(1) by simp
    have "digits_value (take (Suc k) (c # p)) = (of_char c - 48) * 10 ^ k + digits_value (take k p)"
      using kb(1) by (simp add: digits_value_Cons min_def)
    then have val: "val1 * 10 ^ k + digits_value (take k p)
        = val * 10 ^ Suc k + digits_value (take (Suc k) (c # p))"
      by (simp add: val1_def add_mult_distrib)
    have "one_digit_loop cfg max_count (c # p) val counter digits
        = one_digit_loop cfg max_count p val1 (counter + 1) (digits + 1)"
      using True by (simp add: po)
    also have "\<dots> = (drop (Suc k) (c # p),
        val * 10 ^ Suc k + digits_value (take (Suc k) (c # p)),
        counter + Suc k, digits + Suc k)"
      by (simp only: k val) simp
    finally show ?thesis
      using kb by (intro exI [of _ "Suc k"]) auto
  qed
qed

lemma power_of_ten_table: "c < 20 \<Longrightarrow> unat (powers_of_ten_uint64 ! c) = 10 ^ c"
proof -
  have "map unat powers_of_ten_uint64 = map (\<lambda>c. 10 ^ c) [0..<20]"
    by (simp add: powers_of_ten_uint64_def upt_rec)
  moreover assume "c < 20"
  ultimately show ?thesis
    by (metis (no_types, lifting) length_map length_upt minus_nat.diff_0 nth_map nth_upt plus_nat.add_0)
qed

lemma power_of_ten_step: "c \<le> step cfg \<Longrightarrow> power_of_ten cfg c = Some (10 ^ c)"
proof -
  assume c: "c \<le> step cfg"
  then have c20: "c < 20" by (simp add: step_def split: if_splits)
  have "(10 :: nat) ^ c \<le> 10 ^ step cfg"
    using c by (intro power_increasing) simp_all
  then have "(10 :: nat) ^ c < 2 ^ limb_bits cfg"
    using step_limb [of cfg] by (rule le_less_trans)
  then have "to_limb cfg (10 ^ c) = 10 ^ c"
    by (simp add: to_limb_def)
  then show ?thesis
    using c20 power_of_ten_table [OF c20]
    by (simp add: power_of_ten_def) (simp add: powers_of_ten_uint64_def)
qed

lemma chunk_result:
  fixes cfg :: parse_config
  assumes "list_all is_digit p" "d \<le> max_count" "max_count < 2 ^ 64"
  defines "k \<equiv> min (length p) (min (step cfg) (max_count - d))"
  shows "(case (if uc cfg = UC_CHAR then eight_digits_loop cfg max_count p 0 0 d
               else (p, 0, 0, d)) of
            (p1, val1, counter1, digits1) \<Rightarrow>
              one_digit_loop cfg max_count p1 val1 counter1 digits1)
         = (drop k p, digits_value (take k p), k, d + k)"
proof -
  obtain k1 where e: "(if uc cfg = UC_CHAR then eight_digits_loop cfg max_count p 0 0 d
               else (p, 0, 0, d)) = (drop k1 p, digits_value (take k1 p), k1, d + k1)"
    and k1: "k1 \<le> length p" "k1 \<le> step cfg" "d + k1 \<le> max_count"
  proof (cases "uc cfg = UC_CHAR")
    case True
    obtain j where "eight_digits_loop cfg max_count p 0 0 d
          = (drop j p, 0 * 10 ^ j + digits_value (take j p), 0 + j, d + j)"
      and "j \<le> length p" "0 + j \<le> step cfg" "d + j \<le> max_count"
      using eight_digits_loop_result [OF assms(1) _ _ assms(2,3), of 0 0 cfg] by auto
    then show ?thesis using True that [of j] by simp
  next
    case False
    then show ?thesis using that [of 0] assms(2) by (simp add: digits_value_Nil)
  qed
  have dp: "list_all is_digit (drop k1 p)" "list_all is_digit (take k1 p)"
    using assms(1) by (auto simp: list_all_iff dest: in_set_takeD in_set_dropD)
  have "length (take k1 p) = k1"
    using k1(1) by simp
  then have v: "digits_value (take k1 p) < 10 ^ k1"
    using digits_value_lt [OF dp(2)] by (simp only:)
  obtain k2 where o: "one_digit_loop cfg max_count (drop k1 p) (digits_value (take k1 p)) k1 (d + k1)
          = (drop k2 (drop k1 p),
             digits_value (take k1 p) * 10 ^ k2 + digits_value (take k2 (drop k1 p)),
             k1 + k2, d + k1 + k2)"
    and k2: "k2 \<le> length (drop k1 p)" "k1 + k2 \<le> step cfg" "d + k1 + k2 \<le> max_count"
      "k2 = length (drop k1 p) \<or> k1 + k2 = step cfg \<or> d + k1 + k2 = max_count"
    using one_digit_loop_result [OF dp(1) v k1(2,3)] by blast
  have K: "k1 + k2 = k"
    unfolding k_def using k1 k2 by (auto simp: min_def)
  have lk: "length (take k2 (drop k1 p)) = k2"
    using k2(1) by simp
  have "take (k1 + k2) p = take k1 p @ take k2 (drop k1 p)"
    by (simp add: take_add)
  then have "digits_value (take (k1 + k2) p)
      = digits_value (take k1 p) * 10 ^ k2 + digits_value (take k2 (drop k1 p))"
    by (simp only: digits_value_append lk)
  then have "one_digit_loop cfg max_count (drop k1 p) (digits_value (take k1 p)) k1 (d + k1)
      = (drop (k1 + k2) p, digits_value (take (k1 + k2) p), k1 + k2, d + (k1 + k2))"
    by (simp only: o drop_drop add.commute [of k2 k1] add.assoc)
  then show ?thesis
    by (simp only: e K prod.case)
qed

lemma add_native_eq: "add_native big pow val = big * pow + val"
  by (simp add: add_native_def bigint_mul_def bigint_add_def)

lemma round_up_bigint_eq: "round_up_bigint big count = (big * 10 + 1, count + 1)"
  by (simp add: round_up_bigint_def add_native_eq)

lemma step_pos: "0 < step cfg"
  by (simp add: step_def)

lemma split_value:
  assumes "k \<le> length p"
  shows "(r * 10 ^ k + digits_value (take k p)) * 10 ^ length (drop k p) + digits_value (drop k p)
       = r * 10 ^ length p + digits_value p"
proof -
  have "digits_value (take k p @ drop k p)
      = digits_value (take k p) * 10 ^ length (drop k p) + digits_value (drop k p)"
    by (rule digits_value_append)
  moreover have "(10 :: nat) ^ length p = 10 ^ k * 10 ^ length (drop k p)"
    using assms by (simp add: power_add [symmetric])
  ultimately show ?thesis
    by (simp add: add_mult_distrib)
qed

lemma digits_loop_closed:
  assumes "list_all is_digit p" "d \<le> max_count" "max_count < 2 ^ 64"
  shows "digits_loop cfg max_count rest p 0 0 d r = Some (
     if p \<noteq> [] \<and> max_count \<le> d + length p
     then (let kept = take (max_count - d) p;
               big = r * 10 ^ length kept + digits_value kept
           in if (\<exists>c\<in>set (drop (max_count - d) p). c \<noteq> CHR ''0'')
                 \<or> (case rest of None \<Rightarrow> False | Some f \<Rightarrow> \<exists>c\<in>set f. c \<noteq> CHR ''0'')
              then Returned (big * 10 + 1) (max_count + 1) else Returned big max_count)
     else Finished (r * 10 ^ length p + digits_value p) (d + length p) 0 0)"
  using assms
proof (induction "length p" arbitrary: p d r rule: less_induct)
  case less
  show ?case
  proof (cases "p = []")
    case True
    then show ?thesis
      by (subst digits_loop.simps) (simp add: digits_value_Nil)
  next
    case False
    define k where "k = min (length p) (min (step cfg) (max_count - d))"
    define r1 where "r1 = r * 10 ^ k + digits_value (take k p)"
    have kb: "k \<le> length p" "k \<le> step cfg" "d + k \<le> max_count"
      using less.prems(2) by (simp_all add: k_def)
    obtain p1 v1 c1 d1 where X: "(if uc cfg = UC_CHAR then eight_digits_loop cfg max_count p 0 0 d
               else (p, 0, 0, d)) = (p1, v1, c1, d1)"
      by (cases "if uc cfg = UC_CHAR then eight_digits_loop cfg max_count p 0 0 d
               else (p, 0, 0, d)") auto
    have o: "one_digit_loop cfg max_count p1 v1 c1 d1 = (drop k p, digits_value (take k p), k, d + k)"
      using chunk_result [OF less.prems, of cfg] by (simp only: X k_def prod.case)
    have trunc: "(is_truncated cfg (drop k p)
                   \<or> (case rest of None \<Rightarrow> False | Some f \<Rightarrow> is_truncated cfg f))
        = ((\<exists>c\<in>set (drop k p). c \<noteq> CHR ''0'')
           \<or> (case rest of None \<Rightarrow> False | Some f \<Rightarrow> \<exists>c\<in>set f. c \<noteq> CHR ''0''))"
      by (simp add: is_truncated_iff split: option.splits)
    have unfold: "digits_loop cfg max_count rest p 0 0 d r =
        (if d + k = max_count
         then Some (if (\<exists>c\<in>set (drop k p). c \<noteq> CHR ''0'')
                 \<or> (case rest of None \<Rightarrow> False | Some f \<Rightarrow> \<exists>c\<in>set f. c \<noteq> CHR ''0'')
              then Returned (r1 * 10 + 1) (max_count + 1) else Returned r1 max_count)
         else digits_loop cfg max_count rest (drop k p) 0 0 (d + k) r1)"
      using False
      by (subst digits_loop.simps)
        (simp add: X o power_of_ten_step [OF kb(2)] add_native_eq round_up_bigint_eq
          r1_def Let_def trunc del: One_nat_def)
    show ?thesis
    proof (cases "d + k = max_count")
      case True
      then have km: "max_count - d = k" by simp
      have lk: "length (take k p) = k" using kb(1) by simp
      have "max_count \<le> d + length p" using True kb(1) by simp
      then show ?thesis
        using False True by (simp only: unfold km lk Let_def r1_def) simp
    next
      case stop: False
      then have dk: "d + k < max_count" using kb(3) by simp
      then have k1: "0 < k"
        using False step_pos [of cfg] by (simp add: k_def)
      have shorter: "length (drop k p) < length p"
        using k1 False by simp
      have dp: "list_all is_digit (drop k p)"
        using less.prems(1) by (auto simp: list_all_iff dest: in_set_dropD)
      have IH: "digits_loop cfg max_count rest (drop k p) 0 0 (d + k) r1 = Some (
         if drop k p \<noteq> [] \<and> max_count \<le> d + k + length (drop k p)
         then (let kept = take (max_count - (d + k)) (drop k p);
                   big = r1 * 10 ^ length kept + digits_value kept
               in if (\<exists>c\<in>set (drop (max_count - (d + k)) (drop k p)). c \<noteq> CHR ''0'')
                     \<or> (case rest of None \<Rightarrow> False | Some f \<Rightarrow> \<exists>c\<in>set f. c \<noteq> CHR ''0'')
                  then Returned (big * 10 + 1) (max_count + 1) else Returned big max_count)
         else Finished (r1 * 10 ^ length (drop k p) + digits_value (drop k p))
                (d + k + length (drop k p)) 0 0)"
        using less.hyps [OF shorter dp kb(3) less.prems(3)] .
      show ?thesis
      proof (cases "drop k p \<noteq> [] \<and> max_count \<le> d + k + length (drop k p)")
        case True
        then have c: "p \<noteq> [] \<and> max_count \<le> d + length p"
          using kb(1) by auto
        define j where "j = max_count - (d + k)"
        have mj: "max_count - d = k + j" using dk by (simp add: j_def)
        have jl: "j \<le> length (drop k p)" using True by (auto simp: j_def)
        have lj: "length (take j (drop k p)) = j" using jl by simp
        have lkj: "length (take (k + j) p) = k + j" using jl kb(1) by simp
        have lk: "length (take k p) = k" using kb(1) by simp
        have tk: "take (k + j) p = take k p @ take j (drop k p)"
          by (simp add: take_add)
        have "digits_value (take (k + j) p)
            = digits_value (take k p) * 10 ^ j + digits_value (take j (drop k p))"
          by (simp only: tk digits_value_append lj)
        then have big: "r1 * 10 ^ j + digits_value (take j (drop k p))
            = r * 10 ^ (k + j) + digits_value (take (k + j) p)"
          by (simp add: r1_def power_add add_mult_distrib)
        have dd: "drop j (drop k p) = drop (k + j) p"
          by (simp add: add.commute)
        show ?thesis
          using stop True c
          by (simp only: unfold IH if_True if_False j_def [symmetric] mj Let_def lj lkj big dd)
            simp
      next
        case False
        then have c: "\<not> (p \<noteq> [] \<and> max_count \<le> d + length p)"
          using kb(1) dk by auto
        have "r1 * 10 ^ length (drop k p) + digits_value (drop k p)
            = r * 10 ^ length p + digits_value p"
          unfolding r1_def using kb(1) by (rule split_value)
        moreover have "d + k + length (drop k p) = d + length p"
          using kb(1) by simp
        ultimately show ?thesis
          using stop False c by (simp only: unfold IH if_False)
      qed
    qed
  qed
qed

lemma join_value:
  "(r * 10 ^ length xs + digits_value xs) * 10 ^ length ys + digits_value ys
     = r * 10 ^ length (xs @ ys) + digits_value (xs @ ys)"
  by (simp add: digits_value_append power_add add_mult_distrib)

lemma parse_mantissa_closed:
  assumes "digit_spans num" "max_count < 2 ^ 64"
  shows "parse_mantissa cfg result num max_count = Some (
      let ds = significant_digits num;
          kept = take max_count ds;
          big = result * 10 ^ length kept + digits_value kept
      in if \<exists>c\<in>set (drop max_count ds). c \<noteq> CHR ''0''
         then round_up_bigint big (length kept) else (big, length kept))"
proof -
  define ip where "ip = dropWhile (\<lambda>c. c = CHR ''0'') (integer num)"
  define r1 where "r1 = result * 10 ^ length ip + digits_value ip"
  have dip: "list_all is_digit ip"
    using assms(1) by (auto simp: digit_spans_def ip_def list_all_iff dest: set_dropWhileD)
  have first: "digits_loop cfg max_count (fraction num) (skip_zeros cfg (integer num)) 0 0 0 result
     = Some (
     if ip \<noteq> [] \<and> max_count \<le> length ip
     then (let kept = take max_count ip;
               big = result * 10 ^ length kept + digits_value kept
           in if (\<exists>c\<in>set (drop max_count ip). c \<noteq> CHR ''0'')
                 \<or> (case fraction num of None \<Rightarrow> False | Some f \<Rightarrow> \<exists>c\<in>set f. c \<noteq> CHR ''0'')
              then Returned (big * 10 + 1) (max_count + 1) else Returned big max_count)
     else Finished r1 (length ip) 0 0)"
    using digits_loop_closed [OF dip _ assms(2), of 0 cfg "fraction num" result]
    by (simp add: skip_zeros_eq ip_def [symmetric] r1_def)
  show ?thesis
  proof (cases "ip \<noteq> [] \<and> max_count \<le> length ip")
    case True
    have ds: "significant_digits num = ip @ (case fraction num of None \<Rightarrow> [] | Some f \<Rightarrow> f)"
      using True by (simp add: significant_digits_def ip_def [symmetric] Let_def split: option.splits)
    have tk: "take max_count (significant_digits num) = take max_count ip"
      using True by (simp add: ds)
    have lt: "length (take max_count ip) = max_count"
      using True by simp
    have dr: "(\<exists>c\<in>set (drop max_count (significant_digits num)). c \<noteq> CHR ''0'')
        = ((\<exists>c\<in>set (drop max_count ip). c \<noteq> CHR ''0'')
           \<or> (case fraction num of None \<Rightarrow> False | Some f \<Rightarrow> \<exists>c\<in>set f. c \<noteq> CHR ''0''))"
      using True by (auto simp: ds split: option.splits)
    show ?thesis
      using True unfolding parse_mantissa_def first
      by (simp add: Let_def tk lt dr round_up_bigint_eq del: One_nat_def)
  next
    case False
    then have small: "length ip \<le> max_count" by auto
    have first': "digits_loop cfg max_count (fraction num) (skip_zeros cfg (integer num)) 0 0 0 result
        = Some (Finished r1 (length ip) 0 0)"
      using False by (simp only: first if_False)
    show ?thesis
    proof (cases "fraction num")
      case None
      have ds: "significant_digits num = ip"
        using None by (simp add: significant_digits_def ip_def [symmetric])
      show ?thesis
        using small None unfolding parse_mantissa_def first'
        by (simp add: ds Let_def r1_def)
    next
      case (Some f)
      define p' where "p' = (if ip = [] then dropWhile (\<lambda>c. c = CHR ''0'') f else f)"
      have ds: "significant_digits num = ip @ p'"
        using Some by (simp add: significant_digits_def ip_def [symmetric] p'_def Let_def)
      have dp: "list_all is_digit p'"
        using assms(1) Some
        by (auto simp: digit_spans_def p'_def list_all_iff dest: set_dropWhileD)
      have arg: "(if length ip = 0 then skip_zeros cfg f else f) = p'"
        by (simp add: p'_def skip_zeros_eq)
      have second: "digits_loop cfg max_count None p' 0 0 (length ip) r1 = Some (
        if p' \<noteq> [] \<and> max_count \<le> length ip + length p'
        then (let kept = take (max_count - length ip) p';
               big = r1 * 10 ^ length kept + digits_value kept
           in if (\<exists>c\<in>set (drop (max_count - length ip) p'). c \<noteq> CHR ''0'')
              then Returned (big * 10 + 1) (max_count + 1) else Returned big max_count)
        else Finished (r1 * 10 ^ length p' + digits_value p') (length ip + length p') 0 0)"
        using digits_loop_closed [OF dp small assms(2), of cfg None r1] by simp
      have unfold: "parse_mantissa cfg result num max_count =
          (case digits_loop cfg max_count None p' 0 0 (length ip) r1 of
             None \<Rightarrow> None
           | Some (Returned result2 digits2) \<Rightarrow> Some (result2, digits2)
           | Some (Finished result2 digits2 counter2 val2) \<Rightarrow>
               if counter2 \<noteq> 0
               then (case power_of_ten cfg counter2 of
                       None \<Rightarrow> None
                     | Some pow \<Rightarrow> Some (add_native result2 pow val2, digits2))
               else Some (result2, digits2))"
        unfolding parse_mantissa_def first'
        by (simp add: Some p'_def skip_zeros_eq)
      show ?thesis
      proof (cases "p' \<noteq> [] \<and> max_count \<le> length ip + length p'")
        case True
        define j where "j = max_count - length ip"
        have jl: "j \<le> length p'" using True by (auto simp: j_def)
        have tk: "take max_count (ip @ p') = ip @ take j p'"
          using small by (simp add: j_def)
        have dr: "drop max_count (ip @ p') = drop j p'"
          using small by (simp add: j_def)
        have lt: "length (ip @ take j p') = max_count"
          using jl small by (simp add: j_def)
        have lj: "length (take j p') = j" using jl by simp
        have big: "r1 * 10 ^ j + digits_value (take j p')
            = result * 10 ^ max_count + digits_value (ip @ take j p')"
          using join_value [of result ip "take j p'"] by (simp only: r1_def lj lt)
        show ?thesis
          using True
          by (simp only: unfold second if_True Let_def j_def [symmetric] ds tk dr lt lj big
              round_up_bigint_eq)
            simp
      next
        case False
        then have all: "length (ip @ p') \<le> max_count"
          using small by auto
        have val: "r1 * 10 ^ length p' + digits_value p'
            = result * 10 ^ length (ip @ p') + digits_value (ip @ p')"
          unfolding r1_def by (rule join_value)
        have tk: "take max_count (ip @ p') = ip @ p'"
          using all by (simp only: take_all)
        have dr: "drop max_count (ip @ p') = []"
          using all by (simp only: drop_all)
        have "parse_mantissa cfg result num max_count
            = Some (result * 10 ^ length (ip @ p') + digits_value (ip @ p'), length (ip @ p'))"
          by (simp only: unfold second False if_False option.case loop_exit.case val)
            simp
        then show ?thesis
          by (simp only: ds Let_def tk dr) simp
      qed
    qed
  qed
qed

section \<open>The two builds at concrete inputs\<close>

text \<open>
  The decimal 0.1 on the negative-exponent path: the digit 1 at exponent \<open>-1\<close>, with
  the binary64 approximation of mantissa 0xCCCCCCCCCCCCCCCC and \<open>power2\<close> 1008. Rounded
  down it is the double with the mantissa field 2702159776422297; the halfway point to
  the next double is \<open>14411518807585587 * 2^(-57)\<close>, and 0.1 lies above it.
\<close>

lemma tenth_round_down: "round_am binary64 \<lparr>mantissa = 14757395258967641292, power2 = 1008\<rparr> (\<lambda>a shift. round_down a shift)
   = Some \<lparr>mantissa = 2702159776422297, power2 = 1019\<rparr>"
  by (simp add: round_am_def round_down_def shr64_def shl64_def binary64_def Let_def word_sle_eq)

lemma tenth_halfway: "to_extended_halfway binary64
      (ieee_to_float binary64 63 False \<lparr>mantissa = 2702159776422297, power2 = 1019\<rparr>)
   = Some \<lparr>mantissa = 14411518807585587, power2 = - 57\<rparr>"
  by (simp add: to_extended_halfway_def to_extended_def ieee_to_float_def shr64_def binary64_def Let_def)

lemma tenth_scale: "scale_digits True 4000 1 (- 1) 14411518807585587 (- 57) = Some (72057594037927936, 72057594037927935)"
  "scale_digits False capacity 1 (- 1) 14411518807585587 (- 57) = Some (1, 14411518807585587)"
  by (simp_all add: scale_digits_def charconv_assert_def pow5_def pow2_def asserted_def Let_def word_sless_alt)

lemma tenth_compare: "negative_compare binary64 (ieee_to_float binary64 63) True 4000 1
      \<lparr>mantissa = 14757395258967641292, power2 = 1008\<rparr> (- 1) = Some 1"
  "negative_compare binary64 (ieee_to_float binary64 63) False capacity 1
      \<lparr>mantissa = 14757395258967641292, power2 = 1008\<rparr> (- 1) = Some (- 1)"
  by (simp_all add: negative_compare_def tenth_round_down tenth_halfway tenth_scale compare_def del: One_nat_def)

lemma tenth_round: "round_am binary64 \<lparr>mantissa = 14757395258967641292, power2 = 1008\<rparr>
     (\<lambda>a shift. round_nearest_tie_even a shift (negative_decide 1))
   = Some \<lparr>mantissa = 2702159776422298, power2 = 1019\<rparr>"
  "round_am binary64 \<lparr>mantissa = 14757395258967641292, power2 = 1008\<rparr>
     (\<lambda>a shift. round_nearest_tie_even a shift (negative_decide (- 1)))
   = Some \<lparr>mantissa = 2702159776422297, power2 = 1019\<rparr>"
  by (simp_all add: round_am_def round_nearest_tie_even_def negative_decide_def shr64_def shl64_def binary64_def Let_def word_sle_eq)

lemma tenth_negative_digit_comp: "negative_digit_comp binary64 (ieee_to_float binary64 63) True 4000 1
      \<lparr>mantissa = 14757395258967641292, power2 = 1008\<rparr> (- 1) = Some \<lparr>mantissa = 2702159776422298, power2 = 1019\<rparr>"
  "negative_digit_comp binary64 (ieee_to_float binary64 63) False capacity 1
      \<lparr>mantissa = 14757395258967641292, power2 = 1008\<rparr> (- 1) = Some \<lparr>mantissa = 2702159776422297, power2 = 1019\<rparr>"
  by (simp_all add: negative_digit_comp_def tenth_compare tenth_round del: One_nat_def)

lemma tenth_above_halfway: "real 14411518807585587 * 2 powi (- 57) < real 1 * 10 powi (- 1)"
  by (simp add: power_int_minus field_simps)

text \<open>
  The decimal 9007199254740993e1 on the positive-exponent path, and 0.1 through
  \<^verbatim>\<open>digit_comp\<close>.
\<close>

lemma scientific_exponent_runs: "scientific_exponent \<lparr>num_exponent = 1, num_mantissa = 9007199254740993,
      integer = ''9007199254740993'', fraction = None\<rparr> = 16"
  "scientific_exponent \<lparr>num_exponent = - 1, num_mantissa = 1,
      integer = ''0'', fraction = Some ''1''\<rparr> = - 1"
  by (simp_all add: scientific_exponent_def loop_10000.simps loop_100.simps loop_10.simps word_le_nat_alt)

lemma parse_mantissa_runs: "parse_mantissa cfg 0 \<lparr>num_exponent = 1, num_mantissa = 9007199254740993,
      integer = ''9007199254740993'', fraction = None\<rparr> 769 = Some (9007199254740993, 16)"
  using parse_mantissa_closed [of "\<lparr>num_exponent = 1, num_mantissa = 9007199254740993,
      integer = ''9007199254740993'', fraction = None\<rparr>" 769 cfg 0]
  by (simp add: digit_spans_def is_digit_def significant_digits_def digits_value_def Let_def)

lemma parse_mantissa_tenth: "parse_mantissa cfg 0 \<lparr>num_exponent = - 1, num_mantissa = 1,
      integer = ''0'', fraction = Some ''1''\<rparr> 769 = Some (1, 1)"
  using parse_mantissa_closed [of "\<lparr>num_exponent = - 1, num_mantissa = 1,
      integer = ''0'', fraction = Some ''1''\<rparr>" 769 cfg 0]
  by (simp add: digit_spans_def is_digit_def significant_digits_def digits_value_def Let_def)

lemma bit_length_runs: "bit_length 9007199254740993 = 54" "bit_length 90071992547409930 = 57"
  by (simp_all add: bit_length.simps)

lemma positive_digit_comp_unchecked: "positive_digit_comp binary64 False capacity 9007199254740993 1
     = Some \<lparr>mantissa = 0, power2 = 1076\<rparr>"
  by (simp add: positive_digit_comp_def charconv_assert_def hi64_def bit_length_runs binary64_def round_am_def
      round_nearest_tie_even_def shl64_def shr64_def Let_def word_sle_eq)

lemma positive_digit_comp_checked: "positive_digit_comp binary64 True 4000 9007199254740993 1
     = Some \<lparr>mantissa = 1125899906842625, power2 = 1079\<rparr>"
  by (simp add: positive_digit_comp_def charconv_assert_def pow10_def asserted_def hi64_def bit_length_runs
      binary64_def round_am_def round_nearest_tie_even_def shl64_def shr64_def Let_def word_sle_eq)

lemma max_digits_binary64: "max_digits binary64 = 769" by (simp add: binary64_def)

lemma digit_comp_positive_runs: "digit_comp binary64 to_float False capacity cfg bias \<lparr>num_exponent = 1, num_mantissa = 9007199254740993,
      integer = ''9007199254740993'', fraction = None\<rparr> am = Some \<lparr>mantissa = 0, power2 = 1076\<rparr>"
  "digit_comp binary64 to_float True 4000 cfg bias \<lparr>num_exponent = 1, num_mantissa = 9007199254740993,
      integer = ''9007199254740993'', fraction = None\<rparr> am = Some \<lparr>mantissa = 1125899906842625, power2 = 1079\<rparr>"
  by (simp_all add: digit_comp_def scientific_exponent_runs parse_mantissa_runs max_digits_binary64
      positive_digit_comp_unchecked positive_digit_comp_checked word_sle_eq Let_def)


lemma digit_comp_tenth: "digit_comp binary64 (ieee_to_float binary64 63) checked capacity cfg (- 32768)
     \<lparr>num_exponent = - 1, num_mantissa = 1, integer = ''0'', fraction = Some ''1''\<rparr>
     \<lparr>mantissa = 14757395258967641292, power2 = - 31760\<rparr>
   = negative_digit_comp binary64 (ieee_to_float binary64 63) checked capacity 1
      \<lparr>mantissa = 14757395258967641292, power2 = 1008\<rparr> (- 1)"
  by (simp add: digit_comp_def scientific_exponent_runs parse_mantissa_tenth max_digits_binary64 word_sle_eq Let_def del: One_nat_def)

section \<open>The claims on the 128-bit arithmetic\<close>

text \<open>
  C7. For every \<^verbatim>\<open>uint128\<close> value \<open>{high, low}\<close> and every 64-bit \<open>n\<close>, in every build
  configuration, \<^verbatim>\<open>self += n\<close> yields \<open>(high * 2^64 + low + n) mod 2^128\<close>: the low half
  is the wrapped sum, and the high half receives a carry of one exactly when the low sum
  left 64 bits. \<open>{0, 2^64 - 1} += 1\<close> is \<open>{1, 0}\<close>, and the implementations with a carry
  intrinsic agree with the manual wrap check on every input.
\<close>

theorem add_assign_carry:
  "uint128_value (add_assign cfg v n) = (uint128_value v + unat n) mod 2 ^ 128
   \<and> low (add_assign cfg v n) = low v + n
   \<and> high (add_assign cfg v n)
       = high v + (if 2 ^ 64 \<le> unat (low v) + unat n then 1 else 0)
   \<and> add_assign cfg \<lparr>high = 0, low = 18446744073709551615\<rparr> 1 = \<lparr>high = 1, low = 0\<rparr>
   \<and> add_assign cfg v n = add_assign PORTABLE_ADD v n
   \<and> add_assign cfg v n = add_assign cfg' v n"
proof -
  have parts: "low (add_assign PORTABLE_ADD v n) = low v + n"
    "high (add_assign PORTABLE_ADD v n)
       = high v + (if 2 ^ 64 \<le> unat (low v) + unat n then 1 else 0)"
    by (simp_all add: Let_def wrap_iff)
  have example: "add_assign PORTABLE_ADD \<lparr>high = 0, low = 18446744073709551615\<rparr> 1
      = \<lparr>high = 1, low = 0\<rparr>"
    by (simp add: Let_def)
  have agree: "add_assign cfg v n = add_assign cfg' v n"
    using add_assign_config [of cfg v n] add_assign_config [of cfg' v n] by simp
  show ?thesis
    using parts example agree add_assign_value [of cfg v n] add_assign_config [of cfg]
    by simp
qed

text \<open>
  C8. For every pair of 64-bit values, in every build configuration, \<^verbatim>\<open>umul128(x, y)\<close> is
  the exact 128-bit product: \<open>high * 2^64 + low = x * y\<close>. The portable decomposition into
  four 32-bit products returns the same pair as the native and the intrinsic branches,
  and \<^verbatim>\<open>umul128(2^64 - 1, 2)\<close> is \<open>{1, 2^64 - 2}\<close>.
\<close>

theorem umul128_exact:
  "uint128_value (umul128 cfg x y) = unat x * unat y
   \<and> umul128 cfg x y = umul128 PORTABLE_MUL x y
   \<and> umul128 cfg x y = umul128 cfg' x y
   \<and> umul128 cfg 18446744073709551615 2 = \<lparr>high = 1, low = 18446744073709551614\<rparr>"
proof -
  have "umul128 cfg 18446744073709551615 2 = \<lparr>high = 1, low = 18446744073709551614\<rparr>"
    by (rule uint128_eqI) (simp_all add: umul128_halves)
  moreover have "umul128 cfg x y = umul128 PORTABLE_MUL x y"
    by (rule umul128_config)
  moreover have "umul128 cfg x y = umul128 cfg' x y"
    by (rule umul128_config)
  ultimately show ?thesis
    using umul128_value [of cfg x y] by blast
qed

text \<open>
  C6. For every 64-bit \<open>x\<close> and every \<^verbatim>\<open>uint128\<close> \<open>y\<close>, in every build configuration,
  \<^verbatim>\<open>umul192_upper128(x, y)\<close> is the upper 128 bits of the 192-bit product, that is
  \<open>x * y div 2^64\<close>, and the sum of \<^verbatim>\<open>umul128(x, y.high)\<close> and
  \<^verbatim>\<open>umul128_upper64(x, y.low)\<close> carries from the low half into the high half.
\<close>

theorem umul192_upper128_exact:
  "uint128_value (umul192_upper128 mc ac x y) = (unat x * uint128_value y) div 2 ^ 64
   \<and> high (umul192_upper128 mc ac x y)
       = high (umul128 mc x (high y))
         + (if 2 ^ 64 \<le> unat (low (umul128 mc x (high y))) + unat (umul128_upper64 mc x (low y))
            then 1 else 0)"
proof -
  define r where "r = umul128 mc x (high y)"
  define u where "u = umul128_upper64 mc x (low y)"
  have res: "umul192_upper128 mc ac x y = add_assign PORTABLE_ADD r u"
    by (simp only: umul192_upper128_def Let_def r_def u_def add_assign_config [of ac])
  have hi: "high (add_assign PORTABLE_ADD r u)
      = high r + (if 2 ^ 64 \<le> unat (low r) + unat u then 1 else 0)"
    by (simp add: Let_def wrap_iff)
  have r: "uint128_value r = unat x * unat (high y)"
    unfolding r_def by (rule umul128_value)
  have u: "unat u = (unat x * unat (low y)) div 2 ^ 64"
    unfolding u_def by (rule unat_umul128_upper64)
  have split: "unat x * uint128_value y
      = (unat x * unat (high y)) * 2 ^ 64 + unat x * unat (low y)"
    by (simp add: uint128_value_def algebra_simps)
  have quot: "(unat x * uint128_value y) div 2 ^ 64
      = unat x * unat (high y) + (unat x * unat (low y)) div 2 ^ 64"
    unfolding split by simp
  have "uint128_value y < 2 ^ 64 * 2 ^ 64"
    using unat_u64_lt [of "high y"] unat_u64_lt [of "low y"]
    by (simp add: uint128_value_def)
  then have "unat x * uint128_value y < 2 ^ 64 * (2 ^ 64 * 2 ^ 64)"
    using unat_u64_lt [of x] by (intro mult_strict_mono) simp_all
  then have small: "(unat x * uint128_value y) div 2 ^ 64 < 2 ^ 128"
    by (simp add: less_mult_imp_div_less)
  have "uint128_value (add_assign PORTABLE_ADD r u) = (uint128_value r + unat u) mod 2 ^ 128"
    by (rule add_assign_value)
  also have "\<dots> = ((unat x * uint128_value y) div 2 ^ 64) mod 2 ^ 128"
    by (simp only: r u quot)
  also have "\<dots> = (unat x * uint128_value y) div 2 ^ 64"
    using small by simp
  finally show ?thesis
    using hi by (simp only: res r_def u_def)
qed

section \<open>The claims on rounding\<close>

text \<open>
  C10. For every extended float and every shift from 0 to 64, \<^verbatim>\<open>round_nearest_tie_even\<close>
  and \<^verbatim>\<open>round_down\<close> return (no 64-bit value is shifted by 64 or more, which the
  model would answer by \<open>None\<close>): a shift of 64 leaves the mantissa 0 and discards all
  64 bits, as the unbounded shift and mask would, and \<open>power2\<close> grows by the shift (in
  32-bit arithmetic).
\<close>

theorem shift_total:
  assumes "0 \<le> sint shift" "sint shift \<le> 64"
  shows "round_nearest_tie_even am shift cb =
     Some \<lparr>mantissa = drop_bit (nat (sint shift)) (mantissa am)
              + (if cb (bit (mantissa am) (nat (sint shift)))
                       (take_bit (nat (sint shift)) (mantissa am)
                          = (if shift = 0 then 0 else 2 ^ (nat (sint shift) - 1)))
                       ((if shift = 0 then 0 else 2 ^ (nat (sint shift) - 1))
                          < take_bit (nat (sint shift)) (mantissa am))
                 then 1 else 0),
           power2 = power2 am + shift\<rparr>
   \<and> round_down am shift =
     Some \<lparr>mantissa = (if shift = 64 then 0 else drop_bit (nat (sint shift)) (mantissa am)),
           power2 = power2 am + shift\<rparr>"
  using assms round_nearest_tie_even_closed [of shift am cb] round_down_total [of shift am]
  by simp

theorem shift_total_witness:
  "round_nearest_tie_even \<lparr>mantissa = 9223372036854775809, power2 = 5\<rparr> 64
      (\<lambda>is_odd is_halfway is_above. is_above \<or> (is_odd \<and> is_halfway))
     = Some \<lparr>mantissa = 1, power2 = 69\<rparr>
   \<and> round_down \<lparr>mantissa = 9223372036854775809, power2 = 5\<rparr> 64
     = Some \<lparr>mantissa = 0, power2 = 69\<rparr>"
  using shift_total [of 64 "\<lparr>mantissa = 9223372036854775809, power2 = 5\<rparr>"
      "\<lambda>is_odd is_halfway is_above. is_above \<or> (is_odd \<and> is_halfway)"]
  by (simp add: take_bit_word_eq_self)

text \<open>
  C4. In the normal regime (the test \<^verbatim>\<open>-am.power2 >= mantissa_shift\<close> fails), for a
  format whose explicit bits lie between 0 and 62, \<^verbatim>\<open>round\<close> calls the callback
  with the shift \<open>64 - explicit_bits - 1\<close>; if the mantissa it gets back is at least
  \<open>2^(explicit_bits + 1)\<close> the mantissa becomes \<open>2^explicit_bits\<close> and \<open>power2\<close> is
  incremented; the hidden bit is cleared; and if \<open>power2\<close> has reached
  \<open>infinite_power\<close> the result is \<open>power2 = infinite_power\<close>, \<open>mantissa = 0\<close>.
\<close>

theorem round_normal_regime:
  assumes "0 \<le> mantissa_explicit_bits fmt" "mantissa_explicit_bits fmt < 63"
    and "\<not> (word_of_int (64 - mantissa_explicit_bits fmt - 1) :: i32) \<le>s - power2 am"
  shows "round_am fmt am cb =
     (case cb am (word_of_int (64 - mantissa_explicit_bits fmt - 1)) of
        None \<Rightarrow> None
      | Some am1 \<Rightarrow>
          Some (let e = nat (mantissa_explicit_bits fmt);
                    carried = (2 ^ (e + 1) \<le> unat (mantissa am1));
                    m2 = (if carried then 2 ^ e else mantissa am1);
                    p2 = (if carried then power2 am1 + 1 else power2 am1)
                in if word_of_int (infinite_power fmt) \<le>s p2
                   then \<lparr>mantissa = 0, power2 = word_of_int (infinite_power fmt)\<rparr>
                   else \<lparr>mantissa = unset_bit e m2, power2 = p2\<rparr>))"
  using assms by (rule round_am_normal)

theorem round_normal_regime_witness:
  "round_am binary64 \<lparr>mantissa = 18446744073709551615, power2 = 1100\<rparr>
     (\<lambda>a shift. round_nearest_tie_even a shift
        (\<lambda>is_odd is_halfway is_above. is_above \<or> (is_odd \<and> is_halfway)))
   = Some \<lparr>mantissa = 0, power2 = 1112\<rparr>"
proof -
  have cb: "round_nearest_tie_even \<lparr>mantissa = 18446744073709551615, power2 = 1100\<rparr> 11
      (\<lambda>is_odd is_halfway is_above. is_above \<or> (is_odd \<and> is_halfway))
     = Some \<lparr>mantissa = 9007199254740992, power2 = 1111\<rparr>"
    by (simp add: round_nearest_tie_even_def shl64_def shr64_def Let_def)
  show ?thesis
    using round_normal_regime [of binary64 "\<lparr>mantissa = 18446744073709551615, power2 = 1100\<rparr>"
      "\<lambda>a shift. round_nearest_tie_even a shift
        (\<lambda>is_odd is_halfway is_above. is_above \<or> (is_odd \<and> is_halfway))"]
    by (simp add: binary64_def cb Let_def unset_bit_eq_and_not)
qed

text \<open>
  C3, at the decimal 0.1 (the digit 1 at exponent \<open>-1\<close>, on the binary64 approximation
  with the mantissa 0xCCCCCCCCCCCCCCCC and \<open>power2\<close> 1008). The halfway point above the
  rounded-down double is \<open>14411518807585587 * 2^(-57)\<close>, and 0.1 is strictly above
  it. In a build where \<^verbatim>\<open>BOOST_CHARCONV_ASSERT\<close> expands to nothing the two big
  integers are compared unscaled, \<open>ord\<close> is \<open>-1\<close> and the result is rounded down
  (mantissa field 2702159776422297); in a build where the macro evaluates its argument
  \<open>ord\<close> is 1 and the result is rounded up (mantissa field 2702159776422298, the
  double nearest to 0.1). In that second build \<open>ord\<close> is, on every input of the
  path whose two exponents differ by less than \<open>2^31\<close>, the comparison of the
  decimal value with the halfway point (lemma \<open>negative_compare_checked\<close>), and
  the callback is
  \<open>ord > 0 \<or> (ord = 0 \<and> is_odd)\<close> (lemma \<open>negative_decide_eq\<close>).
\<close>

theorem negative_digit_comp_unscaled:
  "to_extended_halfway binary64
      (ieee_to_float binary64 63 False \<lparr>mantissa = 2702159776422297, power2 = 1019\<rparr>)
     = Some \<lparr>mantissa = 14411518807585587, power2 = - 57\<rparr>
   \<and> real 14411518807585587 * 2 powi (- 57) < real 1 * 10 powi (- 1)
   \<and> negative_compare binary64 (ieee_to_float binary64 63) False capacity 1
        \<lparr>mantissa = 14757395258967641292, power2 = 1008\<rparr> (- 1) = Some (- 1)
   \<and> negative_digit_comp binary64 (ieee_to_float binary64 63) False capacity 1
        \<lparr>mantissa = 14757395258967641292, power2 = 1008\<rparr> (- 1)
       = Some \<lparr>mantissa = 2702159776422297, power2 = 1019\<rparr>
   \<and> negative_compare binary64 (ieee_to_float binary64 63) True 4000 1
        \<lparr>mantissa = 14757395258967641292, power2 = 1008\<rparr> (- 1) = Some 1
   \<and> negative_digit_comp binary64 (ieee_to_float binary64 63) True 4000 1
        \<lparr>mantissa = 14757395258967641292, power2 = 1008\<rparr> (- 1)
       = Some \<lparr>mantissa = 2702159776422298, power2 = 1019\<rparr>"
  using tenth_halfway tenth_above_halfway tenth_compare tenth_negative_digit_comp
  by (intro conjI)

text \<open>
  C2, as stated, fails in either build. For the decimal 9007199254740992.5 (the real
  digits 90071992547409925 at exponent \<open>-1\<close>) and the binary64 halfway point
  \<open>2^53 + 1\<close> (the theoretical digits 9007199254740993 at exponent 0), the real
  digits have the smaller power-of-two exponent, and they are not multiplied by
  \<open>2^1\<close>: they are left as they are.
\<close>

theorem scale_smaller_exponent_counterexample:
  "\<forall>checked.
     \<not> (\<forall>capacity real_digits real_exp theor_digits theor_exp r t.
        sint real_exp < 0 \<and> sint real_exp < sint theor_exp
        \<and> scale_digits checked capacity real_digits real_exp theor_digits theor_exp = Some (r, t)
        \<longrightarrow> r = real_digits * 2 ^ nat (sint theor_exp - sint real_exp))"
proof (intro allI notI)
  fix checked
  assume a: "\<forall>capacity real_digits real_exp theor_digits theor_exp r t.
        sint real_exp < 0 \<and> sint real_exp < sint theor_exp
        \<and> scale_digits checked capacity real_digits real_exp theor_digits theor_exp = Some (r, t)
        \<longrightarrow> r = real_digits * 2 ^ nat (sint theor_exp - sint real_exp)"
  have run: "scale_digits checked 4000 90071992547409925 (- 1) 9007199254740993 0
     = Some (90071992547409925, if checked then 90071992547409930 else 9007199254740993)"
    by (simp add: scale_digits_def charconv_assert_def pow5_def pow2_def asserted_def Let_def
        word_sless_alt)
  have "sint (- 1 :: i32) < 0 \<and> sint (- 1 :: i32) < sint (0 :: i32)
      \<and> scale_digits checked 4000 90071992547409925 (- 1) 9007199254740993 0
         = Some (90071992547409925, if checked then 90071992547409930 else 9007199254740993)"
    using run by simp
  with a have "(90071992547409925 :: nat)
      = 90071992547409925 * 2 ^ nat (sint (0 :: i32) - sint (- 1 :: i32))"
    by blast
  then show False by simp
qed

text \<open>
  C2, amended. In the negative-exponent path (\<open>real_exp \<le> 0\<close>, the difference of the
  exponents within 32 bits), in a build where \<^verbatim>\<open>BOOST_CHARCONV_ASSERT\<close> evaluates
  its argument: when the scaling returns, the theoretical digits have been multiplied by
  \<open>5^(-real_exp)\<close>, and the big integer whose power-of-two exponent is the larger of
  the two is the one multiplied by \<open>2^|\<Delta>|\<close>; the other one is not. Both then count
  units of \<open>2^min(real_exp, theor_exp) * 5^real_exp\<close>: the real digits times that unit
  are \<open>real_digits * 10^real_exp\<close>, the theoretical ones
  \<open>theor_digits * 2^theor_exp\<close>. The scaling does return when both results fit the
  capacity of the big integer. In a build where the macro expands to nothing none of
  this is done: both big integers reach the comparison as they were (the defect shown
  under C3 and C1).
\<close>

theorem scale_digits_larger_exponent:
  assumes "sint real_exp \<le> 0"
    and "- (2 ^ 31) < sint theor_exp - sint real_exp" "sint theor_exp - sint real_exp < 2 ^ 31"
  shows "(scale_digits True capacity real_digits real_exp theor_digits theor_exp = Some (r, t) \<longrightarrow>
       r = real_digits * 2 ^ nat (sint real_exp - sint theor_exp)
     \<and> t = theor_digits * 5 ^ nat (- sint real_exp) * 2 ^ nat (sint theor_exp - sint real_exp)
     \<and> (sint real_exp < sint theor_exp \<longrightarrow> r = real_digits)
     \<and> (sint theor_exp < sint real_exp \<longrightarrow> t = theor_digits * 5 ^ nat (- sint real_exp))
     \<and> real r * 2 powi (min (sint real_exp) (sint theor_exp)) * 5 powi (sint real_exp)
         = real real_digits * 10 powi (sint real_exp)
     \<and> real t * 2 powi (min (sint real_exp) (sint theor_exp)) * 5 powi (sint real_exp)
         = real theor_digits * 2 powi (sint theor_exp))
   \<and> (real_digits * 2 ^ nat (sint real_exp - sint theor_exp) < 2 ^ capacity
      \<and> theor_digits * 5 ^ nat (- sint real_exp) * 2 ^ nat (sint theor_exp - sint real_exp)
          < 2 ^ capacity \<longrightarrow>
      scale_digits True capacity real_digits real_exp theor_digits theor_exp =
        Some (real_digits * 2 ^ nat (sint real_exp - sint theor_exp),
              theor_digits * 5 ^ nat (- sint real_exp) * 2 ^ nat (sint theor_exp - sint real_exp)))
   \<and> scale_digits False capacity real_digits real_exp theor_digits theor_exp
       = Some (real_digits, theor_digits)"
proof (intro conjI impI)
  assume res: "scale_digits True capacity real_digits real_exp theor_digits theor_exp = Some (r, t)"
  show r: "r = real_digits * 2 ^ nat (sint real_exp - sint theor_exp)"
    and t: "t = theor_digits * 5 ^ nat (- sint real_exp) * 2 ^ nat (sint theor_exp - sint real_exp)"
    using assms res by (rule scale_digits_result)+
  show "real r * 2 powi (min (sint real_exp) (sint theor_exp)) * 5 powi (sint real_exp)
       = real real_digits * 10 powi (sint real_exp)"
    unfolding r using assms(1) by (rule same_magnitude)
  show "real t * 2 powi (min (sint real_exp) (sint theor_exp)) * 5 powi (sint real_exp)
       = real theor_digits * 2 powi (sint theor_exp)"
    unfolding t using assms(1) by (rule same_magnitude)
  show "r = real_digits" if "sint real_exp < sint theor_exp"
    using r that by simp
  show "t = theor_digits * 5 ^ nat (- sint real_exp)" if "sint theor_exp < sint real_exp"
    using t that by simp
next
  assume "real_digits * 2 ^ nat (sint real_exp - sint theor_exp) < 2 ^ capacity
      \<and> theor_digits * 5 ^ nat (- sint real_exp) * 2 ^ nat (sint theor_exp - sint real_exp)
          < 2 ^ capacity"
  then show "scale_digits True capacity real_digits real_exp theor_digits theor_exp =
        Some (real_digits * 2 ^ nat (sint real_exp - sint theor_exp),
              theor_digits * 5 ^ nat (- sint real_exp) * 2 ^ nat (sint theor_exp - sint real_exp))"
    using assms by (intro scale_digits_returns) simp_all
next
  show "scale_digits False capacity real_digits real_exp theor_digits theor_exp
       = Some (real_digits, theor_digits)"
    by (rule scale_digits_unchecked)
qed

theorem scale_digits_larger_exponent_witness:
  "scale_digits True 4000 90071992547409925 (- 1) 9007199254740993 0
     = Some (90071992547409925, 90071992547409930)
   \<and> real 90071992547409925 * 2 powi (- 1) * 5 powi (- 1) = real 90071992547409925 * 10 powi (- 1)
   \<and> real 90071992547409930 * 2 powi (- 1) * 5 powi (- 1) = real 9007199254740993 * 2 powi 0
   \<and> scale_digits False 4000 90071992547409925 (- 1) 9007199254740993 0
     = Some (90071992547409925, 9007199254740993)
   \<and> scale_digits True 4000 1 (- 1) 14411518807585587 (- 57)
     = Some (72057594037927936, 72057594037927935)"
proof -
  have h: "sint (- 1 :: i32) \<le> 0" "- (2 ^ 31) < sint (0 :: i32) - sint (- 1 :: i32)"
    "sint (0 :: i32) - sint (- 1 :: i32) < 2 ^ 31"
    by simp_all
  have k: "- (2 ^ 31) < sint (- 57 :: i32) - sint (- 1 :: i32)"
    "sint (- 57 :: i32) - sint (- 1 :: i32) < 2 ^ 31"
    by simp_all
  have e: "nat (sint (- 1 :: i32) - sint (0 :: i32)) = 0" "nat (- sint (- 1 :: i32)) = 1"
    "nat (sint (0 :: i32) - sint (- 1 :: i32)) = 1"
    "nat (sint (- 1 :: i32) - sint (- 57 :: i32)) = 56"
    "nat (sint (- 57 :: i32) - sint (- 1 :: i32)) = 0"
    by simp_all
  have m: "min (sint (- 1 :: i32)) (sint (0 :: i32)) = - 1" "sint (- 1 :: i32) = - 1"
    "sint (0 :: i32) = 0" "min (- 1 :: int) 0 = - 1"
    by simp_all
  have fits: "(90071992547409925 :: nat) * 2 ^ 0 < 2 ^ 4000
      \<and> (9007199254740993 :: nat) * 5 ^ 1 * 2 ^ 1 < 2 ^ 4000"
    "(1 :: nat) * 2 ^ 56 < 2 ^ 4000 \<and> (14411518807585587 :: nat) * 5 ^ 1 * 2 ^ 0 < 2 ^ 4000"
    by simp_all
  note first = scale_digits_larger_exponent [OF h, of 4000 90071992547409925 9007199254740993
      90071992547409925 90071992547409930, unfolded e]
  note second = scale_digits_larger_exponent [OF h(1) k, of 4000 1 14411518807585587, unfolded e]
  from first fits(1) have "scale_digits True 4000 90071992547409925 (- 1) 9007199254740993 0
     = Some (90071992547409925 * 2 ^ 0, 9007199254740993 * 5 ^ 1 * 2 ^ 1)"
    by blast
  then have run: "scale_digits True 4000 90071992547409925 (- 1) 9007199254740993 0
     = Some (90071992547409925, 90071992547409930)"
    by simp
  from second fits(2) have "scale_digits True 4000 1 (- 1) 14411518807585587 (- 57)
     = Some (1 * 2 ^ 56, 14411518807585587 * 5 ^ 1 * 2 ^ 0)"
    by blast
  then have run2: "scale_digits True 4000 1 (- 1) 14411518807585587 (- 57)
     = Some (72057594037927936, 72057594037927935)"
    by simp
  from first run have "real 90071992547409925 * 2 powi (min (sint (- 1 :: i32)) (sint (0 :: i32)))
          * 5 powi (sint (- 1 :: i32))
         = real 90071992547409925 * 10 powi (sint (- 1 :: i32))
     \<and> real 90071992547409930 * 2 powi (min (sint (- 1 :: i32)) (sint (0 :: i32)))
          * 5 powi (sint (- 1 :: i32))
         = real 9007199254740993 * 2 powi (sint (0 :: i32))"
    by blast
  then have same: "real 90071992547409925 * 2 powi (- 1) * 5 powi (- 1)
         = real 90071992547409925 * 10 powi (- 1)
     \<and> real 90071992547409930 * 2 powi (- 1) * 5 powi (- 1) = real 9007199254740993 * 2 powi 0"
    unfolding m .
  from first have "scale_digits False 4000 90071992547409925 (- 1) 9007199254740993 0
     = Some (90071992547409925, 9007199254740993)"
    by blast
  with run run2 same show ?thesis by blast
qed

section \<open>The claim on the scientific exponent\<close>

text \<open>
  C9. \<^verbatim>\<open>scientific_exponent\<close> returns the exponent plus the number of decimal digits
  of the mantissa minus one (in 32-bit arithmetic, and as integers when the sum fits 32
  bits), so the exponent itself when the mantissa is below 10; and every sequence of
  divide-by-10000, divide-by-100 and divide-by-10 steps, in any order, that ends with a
  single digit ends with the same exponent.
\<close>

theorem scientific_exponent_position:
  "scientific_exponent num
     = num_exponent num + word_of_nat (decimal_digits (unat (num_mantissa num)) - 1)
   \<and> (num_mantissa num < 10 \<longrightarrow> scientific_exponent num = num_exponent num)
   \<and> (\<forall>m' e'. exponent_step\<^sup>*\<^sup>* (num_mantissa num, num_exponent num) (m', e') \<and> m' < 10
        \<longrightarrow> e' = scientific_exponent num)
   \<and> (sint (num_exponent num) + int (decimal_digits (unat (num_mantissa num)) - 1) < 2 ^ 31
        \<longrightarrow> sint (scientific_exponent num)
            = sint (num_exponent num) + int (decimal_digits (unat (num_mantissa num)) - 1))"
proof (intro conjI impI allI)
  obtain m where m: "m < 10"
    and run: "exponent_step\<^sup>*\<^sup>* (num_mantissa num, num_exponent num) (m, scientific_exponent num)"
    using scientific_exponent_run by blast
  show eq: "scientific_exponent num
     = num_exponent num + word_of_nat (decimal_digits (unat (num_mantissa num)) - 1)"
    using run m by (rule final_position)
  {
    assume "num_mantissa num < 10"
    then have "unat (num_mantissa num) < 10"
      by (simp add: word_less_nat_alt)
    then have "decimal_digits (unat (num_mantissa num)) = 1"
      by (rule decimal_digits_small)
    then show "scientific_exponent num = num_exponent num"
      by (simp add: eq)
  }
  {
    fix m' e'
    assume "exponent_step\<^sup>*\<^sup>* (num_mantissa num, num_exponent num) (m', e') \<and> m' < 10"
    then have "e' = num_exponent num + word_of_nat (decimal_digits (unat (num_mantissa num)) - 1)"
      using final_position by blast
    then show "e' = scientific_exponent num"
      by (simp only: eq)
  }
  {
    assume "sint (num_exponent num) + int (decimal_digits (unat (num_mantissa num)) - 1) < 2 ^ 31"
    moreover have "decimal_digits (unat (num_mantissa num)) - 1 \<le> 19"
      using decimal_digits_u64 [of "num_mantissa num"] by simp
    ultimately have "sint (num_exponent num + word_of_nat (decimal_digits (unat (num_mantissa num)) - 1))
        = sint (num_exponent num) + int (decimal_digits (unat (num_mantissa num)) - 1)"
      by (intro sint_add_small)
    then show "sint (scientific_exponent num)
            = sint (num_exponent num) + int (decimal_digits (unat (num_mantissa num)) - 1)"
      by (simp only: eq)
  }
qed

theorem scientific_exponent_position_witness:
  "scientific_exponent \<lparr>num_exponent = - 5, num_mantissa = 123456789,
      integer = ''1234'', fraction = Some ''56789''\<rparr> = 3
   \<and> scientific_exponent \<lparr>num_exponent = - 5, num_mantissa = 7,
      integer = ''0'', fraction = Some ''00007''\<rparr> = - 5"
proof -
  have d: "decimal_digits 123456789 = 9" "decimal_digits 7 = 1"
    by (simp_all add: decimal_digits.simps)
  show ?thesis
    using scientific_exponent_position [of "\<lparr>num_exponent = - 5, num_mantissa = 123456789,
      integer = ''1234'', fraction = Some ''56789''\<rparr>", THEN conjunct1]
      scientific_exponent_position [of "\<lparr>num_exponent = - 5, num_mantissa = 7,
      integer = ''0'', fraction = Some ''00007''\<rparr>", THEN conjunct1]
    by (simp add: d)
qed

section \<open>The claim on the digit accumulator\<close>

text \<open>
  C5. For digit spans (every code unit a decimal digit) and a \<^verbatim>\<open>max_digits\<close> that fits
  \<^verbatim>\<open>std::size_t\<close>, in every build configuration, \<^verbatim>\<open>parse_mantissa\<close> returns, and
  the accumulator holds the first \<^verbatim>\<open>max_digits\<close> significant digits folded into the
  initial value. When a digit after them (in the rest of the integer span or anywhere in
  the fraction span) is not zero, \<^verbatim>\<open>round_up_bigint\<close> is applied once to that: one
  multiplication by 10, one addition of 1, one more digit counted. Otherwise the
  accumulator and the count are those of the kept digits.
\<close>

theorem parse_mantissa_truncation:
  assumes "digit_spans num" "max_count < 2 ^ 64"
  shows "parse_mantissa cfg result num max_count = Some (
      let ds = significant_digits num;
          kept = take max_count ds;
          big = add_native result (10 ^ length kept) (digits_value kept)
      in if \<exists>c\<in>set (drop max_count ds). c \<noteq> CHR ''0''
         then round_up_bigint big (length kept) else (big, length kept))
   \<and> round_up_bigint big count = (bigint_add (bigint_mul big 10) 1, count + 1)"
proof -
  have "round_up_bigint big count = (bigint_add (bigint_mul big 10) 1, count + 1)"
    by (simp add: round_up_bigint_def add_native_def)
  then show ?thesis
    using parse_mantissa_closed [OF assms, of cfg result]
    by (simp only: add_native_eq)
qed

theorem parse_mantissa_truncation_witness:
  "parse_mantissa \<lparr>fastfloat_64bit = True, uc = UC_CHAR, constant_evaluated = False\<rparr> 0
     \<lparr>num_exponent = - 3, num_mantissa = 123456, integer = ''00123'', fraction = Some ''456''\<rparr> 4
     = Some (12341, 5)
   \<and> parse_mantissa \<lparr>fastfloat_64bit = False, uc = UC_CHAR16, constant_evaluated = False\<rparr> 0
     \<lparr>num_exponent = - 3, num_mantissa = 123000, integer = ''00123'', fraction = Some ''000''\<rparr> 4
     = Some (1230, 4)"
  using parse_mantissa_truncation [of
      "\<lparr>num_exponent = - 3, num_mantissa = 123456, integer = ''00123'', fraction = Some ''456''\<rparr>"
      4 "\<lparr>fastfloat_64bit = True, uc = UC_CHAR, constant_evaluated = False\<rparr>" 0]
    parse_mantissa_truncation [of
      "\<lparr>num_exponent = - 3, num_mantissa = 123000, integer = ''00123'', fraction = Some ''000''\<rparr>"
      4 "\<lparr>fastfloat_64bit = False, uc = UC_CHAR16, constant_evaluated = False\<rparr>" 0]
  by (simp add: digit_spans_def is_digit_def significant_digits_def digits_value_def
      add_native_eq round_up_bigint_eq Let_def)

section \<open>The claim on the whole comparison\<close>

text \<open>
  C1, at the decimal 9007199254740993e1 (the integer digits 9007199254740993, no
  fraction, exponent 1) in binary64, whatever the approximation is. In a build where
  \<^verbatim>\<open>BOOST_CHARCONV_ASSERT\<close> expands to nothing \<^verbatim>\<open>digit_comp\<close> returns the
  mantissa field 0 at \<open>power2\<close> 1076, which is the double \<open>2^53\<close> = 9007199254740992,
  a tenth of the decimal; in a build where the macro evaluates its argument it returns
  the field 1125899906842625 at \<open>power2\<close> 1079, the double 90071992547409936, the
  nearest to 90071992547409930. And at the decimal 0.1 (integer digits 0, fraction
  digits 1, exponent \<open>-1\<close>, on the approximation with the mantissa 0xCCCCCCCCCCCCCCCC
  and \<open>power2\<close> 1008 under the bias \<open>-32768\<close>) the first build returns the field
  2702159776422297 and the second 2702159776422298, the double nearest to 0.1.
\<close>

theorem digit_comp_unchecked_build:
  "digit_comp binary64 to_float False capacity cfg bias
      \<lparr>num_exponent = 1, num_mantissa = 9007199254740993,
       integer = ''9007199254740993'', fraction = None\<rparr> am
     = Some \<lparr>mantissa = 0, power2 = 1076\<rparr>
   \<and> digit_comp binary64 to_float True 4000 cfg bias
      \<lparr>num_exponent = 1, num_mantissa = 9007199254740993,
       integer = ''9007199254740993'', fraction = None\<rparr> am
     = Some \<lparr>mantissa = 1125899906842625, power2 = 1079\<rparr>
   \<and> digit_comp binary64 (ieee_to_float binary64 63) False capacity cfg (- 32768)
      \<lparr>num_exponent = - 1, num_mantissa = 1, integer = ''0'', fraction = Some ''1''\<rparr>
      \<lparr>mantissa = 14757395258967641292, power2 = - 31760\<rparr>
     = Some \<lparr>mantissa = 2702159776422297, power2 = 1019\<rparr>
   \<and> digit_comp binary64 (ieee_to_float binary64 63) True 4000 cfg (- 32768)
      \<lparr>num_exponent = - 1, num_mantissa = 1, integer = ''0'', fraction = Some ''1''\<rparr>
      \<lparr>mantissa = 14757395258967641292, power2 = - 31760\<rparr>
     = Some \<lparr>mantissa = 2702159776422298, power2 = 1019\<rparr>"
  using digit_comp_positive_runs digit_comp_tenth tenth_negative_digit_comp
  by (simp del: One_nat_def)

end
